theory Spec2Isabelle
  imports Complex_Main "HOL-Library.Word" "HOL-Library.Log_Nat" "HOL-Library.Stream"
begin

unbundle bit_operations_syntax

section \<open>IEEE 754 arithmetic as the program uses it\<close>

text \<open>
  \<^verbatim>\<open>SquareWaveFitTest.C\<close> computes with \<^verbatim>\<open>float\<close> (binary32) and, wherever a
  \<^verbatim>\<open>double\<close> literal or a \<^verbatim>\<open>double\<close> variable takes part, with \<^verbatim>\<open>double\<close>
  (binary64).  A floating-point datum is a NaN, an infinity or a finite rational; each
  arithmetic operation computes the exact rational result and rounds it to the format of
  the operation, to nearest with ties to even, overflowing to an infinity.  The two zeros
  are one value \<open>Fin 0\<close>: the program never divides by a variable, and no other
  operation it uses tells them apart.
\<close>

datatype fp = NaN | PInf | NInf | Fin rat

text \<open>\<open>ilog2 x\<close> is the binary exponent of a non-zero \<open>x\<close>: \<open>2 ^ ilog2 x \<le> \<bar>x\<bar> < 2 ^ (ilog2 x + 1)\<close>.\<close>

definition ilog2 :: "rat \<Rightarrow> int" where
  "ilog2 x = (case quotient_of \<bar>x\<bar> of (a, b) \<Rightarrow>
     let d = bitlen a - bitlen b in if 2 powi d \<le> \<bar>x\<bar> then d else d - 1)"

definition round_even :: "rat \<Rightarrow> int" where
  "round_even q = (let f = \<lfloor>q\<rfloor>; d = q - of_int f in
     if d < 1 / 2 then f else if 1 / 2 < d then f + 1 else if even f then f else f + 1)"

text \<open>
  Rounding to a format of precision \<open>p\<close> and largest exponent \<open>emax\<close> (smallest
  exponent \<open>1 - emax\<close>, below which the spacing stays that of the subnormals).
\<close>

definition fround :: "nat \<Rightarrow> int \<Rightarrow> rat \<Rightarrow> fp" where
  "fround p emax x = (if x = 0 then Fin 0 else
     let e = max (ilog2 x) (1 - emax);
         u = 2 powi (e - int p + 1);
         r = of_int (round_even (x / u)) * u
     in if 2 powi (emax + 1) \<le> \<bar>r\<bar> then (if 0 < x then PInf else NInf) else Fin r)"

definition f32 :: "rat \<Rightarrow> fp" where
  "f32 = fround 24 127"

definition f64 :: "rat \<Rightarrow> fp" where
  "f64 = fround 53 1023"

text \<open>Conversion of a datum to the format whose rounding is \<open>rnd\<close>.\<close>

fun fcast :: "(rat \<Rightarrow> fp) \<Rightarrow> fp \<Rightarrow> fp" where
  "fcast rnd (Fin a) = rnd a"
| "fcast rnd x = x"

fun fneg :: "fp \<Rightarrow> fp" where
  "fneg NaN = NaN"
| "fneg PInf = NInf"
| "fneg NInf = PInf"
| "fneg (Fin a) = Fin (- a)"

fun fadd :: "(rat \<Rightarrow> fp) \<Rightarrow> fp \<Rightarrow> fp \<Rightarrow> fp" where
  "fadd rnd NaN y = NaN"
| "fadd rnd x NaN = NaN"
| "fadd rnd PInf NInf = NaN"
| "fadd rnd NInf PInf = NaN"
| "fadd rnd PInf y = PInf"
| "fadd rnd NInf y = NInf"
| "fadd rnd x PInf = PInf"
| "fadd rnd x NInf = NInf"
| "fadd rnd (Fin a) (Fin b) = rnd (a + b)"

definition fsub :: "(rat \<Rightarrow> fp) \<Rightarrow> fp \<Rightarrow> fp \<Rightarrow> fp" where
  "fsub rnd x y = fadd rnd x (fneg y)"

text \<open>
  Division.  A finite non-zero dividend over zero gives the infinity of the dividend's
  sign (the zero of this model is the positive one); the program divides by 36 only.
\<close>

fun fdiv :: "(rat \<Rightarrow> fp) \<Rightarrow> fp \<Rightarrow> fp \<Rightarrow> fp" where
  "fdiv rnd NaN y = NaN"
| "fdiv rnd x NaN = NaN"
| "fdiv rnd (Fin a) (Fin b) =
     (if b = 0 then (if a = 0 then NaN else if 0 < a then PInf else NInf) else rnd (a / b))"
| "fdiv rnd (Fin a) y = Fin 0"
| "fdiv rnd x (Fin b) = (if (x = PInf) = (0 \<le> b) then PInf else NInf)"
| "fdiv rnd x y = NaN"

text \<open>
  \<^verbatim>\<open>fmod\<close> of the C library: the remainder \<open>x - n * y\<close> with \<open>n\<close> the quotient
  truncated toward zero.  It is exact in every format, so the \<^verbatim>\<open>float\<close> and the
  \<^verbatim>\<open>double\<close> overloads agree on \<^verbatim>\<open>float\<close> arguments.
\<close>

definition trunc_rat :: "rat \<Rightarrow> int" where
  "trunc_rat q = (if 0 \<le> q then \<lfloor>q\<rfloor> else \<lceil>q\<rceil>)"

fun fmod :: "fp \<Rightarrow> fp \<Rightarrow> fp" where
  "fmod (Fin a) (Fin b) = (if b = 0 then NaN else Fin (a - of_int (trunc_rat (a / b)) * b))"
| "fmod (Fin a) PInf = Fin a"
| "fmod (Fin a) NInf = Fin a"
| "fmod x y = NaN"

text \<open>Comparisons: every comparison with a NaN is false.\<close>

fun flt :: "fp \<Rightarrow> fp \<Rightarrow> bool" where
  "flt NaN y = False"
| "flt x NaN = False"
| "flt x NInf = False"
| "flt NInf y = True"
| "flt PInf y = False"
| "flt x PInf = True"
| "flt (Fin a) (Fin b) = (a < b)"

fun fle :: "fp \<Rightarrow> fp \<Rightarrow> bool" where
  "fle NaN y = False"
| "fle x NaN = False"
| "fle NInf y = True"
| "fle x PInf = True"
| "fle PInf y = False"
| "fle x NInf = False"
| "fle (Fin a) (Fin b) = (a \<le> b)"

definition fgt :: "fp \<Rightarrow> fp \<Rightarrow> bool" where
  "fgt x y = flt y x"

definition fge :: "fp \<Rightarrow> fp \<Rightarrow> bool" where
  "fge x y = fle y x"

section \<open>The bit set\<close>

text \<open>
  \<^verbatim>\<open>static const size_t nbits(36)\<close> and \<^verbatim>\<open>std::bitset<nbits>\<close>: a word of 36 bits.
  \<^verbatim>\<open>set(pos, val)\<close> and \<^verbatim>\<open>test(pos)\<close> throw for \<open>pos \<ge> nbits\<close>; every call of
  the program has \<open>pos < nbits\<close> by its loop condition.
\<close>

definition nbits :: nat where
  "nbits = 36"

type_synonym bset = "36 word"

definition bset_set :: "bset \<Rightarrow> nat \<Rightarrow> bool \<Rightarrow> bset" where
  "bset_set bits pos val = (if val then set_bit pos bits else unset_bit pos bits)"

definition bset_test :: "bset \<Rightarrow> nat \<Rightarrow> bool" where
  "bset_test bits pos = bit bits pos"

definition bset_count :: "bset \<Rightarrow> nat" where
  "bset_count bits = length (filter (bit bits) [0..<nbits])"

section \<open>The square wave and its sampling\<close>

text \<open>
  \<^verbatim>\<open>bool squarewave(float lambda, float phase, float width, float x)\<close>: the
  subtraction and the addition are \<^verbatim>\<open>float\<close> operations.
\<close>

definition squarewave :: "fp \<Rightarrow> fp \<Rightarrow> fp \<Rightarrow> fp \<Rightarrow> bool" where
  "squarewave lambda phase width x =
     (let val = fmod (fsub f32 x phase) lambda;
          val = (if flt val (Fin 0) then fadd f32 val lambda else val)
      in fge val (Fin 0) \<and> flt val width)"

text \<open>
  \<^verbatim>\<open>setbits\<close>: \<^verbatim>\<open>float x = (float(ibit)+0.5)/float(nbits)\<close> adds and divides in
  \<^verbatim>\<open>double\<close> (the literal \<^verbatim>\<open>0.5\<close> is a \<^verbatim>\<open>double\<close>) and converts the quotient
  to \<^verbatim>\<open>float\<close>.
\<close>

function setbits_loop :: "nat \<Rightarrow> bset \<Rightarrow> fp \<Rightarrow> fp \<Rightarrow> fp \<Rightarrow> bset" where
  "setbits_loop ibit bits lambda phase width =
     (if ibit < nbits then
        let x = fcast f32 (fdiv f64 (fadd f64 (f32 (of_nat ibit)) (Fin (1 / 2))) (f32 (of_nat nbits)))
        in setbits_loop (Suc ibit) (bset_set bits ibit (squarewave lambda phase width x))
             lambda phase width
      else bits)"
  by pat_completeness auto
termination
  by (relation "measure (\<lambda>(ibit, bits, lambda, phase, width). nbits - ibit)") auto

definition setbits :: "bset \<Rightarrow> fp \<Rightarrow> fp \<Rightarrow> fp \<Rightarrow> bset" where
  "setbits bits lambda phase width = setbits_loop 0 bits lambda phase width"

text \<open>
  \<^verbatim>\<open>badParams\<close>, with \<open>fnbits\<close> the member \<^verbatim>\<open>_fnbits\<close>: the quotients
  \<^verbatim>\<open>2.0/_fnbits\<close>, \<^verbatim>\<open>1.0/_fnbits\<close> and the difference \<^verbatim>\<open>lambda-1.0/_fnbits\<close> are
  \<^verbatim>\<open>double\<close> operations; \<^verbatim>\<open>phase > lambda\<close> compares two \<^verbatim>\<open>float\<close>s.
\<close>

definition badParams :: "fp \<Rightarrow> fp \<Rightarrow> fp \<Rightarrow> fp \<Rightarrow> bool" where
  "badParams fnbits lambda phase width =
     (flt lambda (fdiv f64 (Fin 2) fnbits) \<or> fgt lambda (Fin (1 / 2)) \<or>
      flt phase (Fin 0) \<or> fgt phase lambda \<or>
      flt width (fdiv f64 (Fin 1) fnbits) \<or> fgt width (fsub f64 lambda (fdiv f64 (Fin 1) fnbits)))"

section \<open>The test class\<close>

text \<open>
  The members of \<^verbatim>\<open>class SquareWaveFitTest\<close>.  A histogram (\<^verbatim>\<open>TH1F\<close>, of the ROOT
  library) is the list of the values filled into it since it was booked or last reset;
  the random engine \<^verbatim>\<open>TRandom3 _rand\<close> is the stream of the \<^verbatim>\<open>double\<close>s its
  \<^verbatim>\<open>Uniform()\<close> is still to return.
\<close>

record SquareWaveFitTest =
  hover :: "fp list"
  hmod :: "fp list"
  hlambda :: "fp list"
  hphase :: "fp list"
  hwidth :: "fp list"
  hdur :: "fp list"
  bitmodels :: "bset list"
  lvec :: "fp list"
  p0vec :: "fp list"
  fvec :: "fp list"
  rand :: "fp stream"
  fnbits :: fp

subsection \<open>The constructor: the exhaustive loop over the models\<close>

text \<open>
  \<^verbatim>\<open>for(size_t iwidth=1; iwidth < ilambda-1; iwidth++)\<close>: the bound \<^verbatim>\<open>ilambda-1\<close>
  is unsigned, and \<open>ilambda\<close> is at least 2 wherever the loop runs, so the subtraction
  does not wrap.  \<^verbatim>\<open>float width = iwidth/_fnbits\<close> converts the counter to
  \<^verbatim>\<open>float\<close> and divides in \<^verbatim>\<open>float\<close>; \<^verbatim>\<open>bset bits\<close> starts with no bit set.
\<close>

function iwidth_loop :: "nat \<Rightarrow> fp \<Rightarrow> fp \<Rightarrow> nat \<Rightarrow> SquareWaveFitTest \<Rightarrow> SquareWaveFitTest" where
  "iwidth_loop ilambda lambda phase iwidth s =
     (if iwidth < ilambda - 1 then
        let width = fdiv f32 (f32 (of_nat iwidth)) (fnbits s);
            bits = setbits 0 lambda phase width
        in iwidth_loop ilambda lambda phase (Suc iwidth)
             (s\<lparr>bitmodels := bitmodels s @ [bits], lvec := lvec s @ [lambda],
                p0vec := p0vec s @ [phase], fvec := fvec s @ [width]\<rparr>)
      else s)"
  by pat_completeness auto
termination
  by (relation "measure (\<lambda>(ilambda, lambda, phase, iwidth, s). ilambda - 1 - iwidth)") auto

function iphase_loop :: "nat \<Rightarrow> fp \<Rightarrow> int \<Rightarrow> SquareWaveFitTest \<Rightarrow> SquareWaveFitTest" where
  "iphase_loop ilambda lambda iphase s =
     (if iphase \<le> int ilambda then
        let phase = fdiv f32 (f32 (of_int iphase)) (fnbits s)
        in iphase_loop ilambda lambda (iphase + 1) (iwidth_loop ilambda lambda phase 1 s)
      else s)"
  by pat_completeness auto
termination
  by (relation "measure (\<lambda>(ilambda, lambda, iphase, s). nat (int ilambda + 1 - iphase))") auto

function ilambda_loop :: "nat \<Rightarrow> SquareWaveFitTest \<Rightarrow> SquareWaveFitTest" where
  "ilambda_loop ilambda s =
     (if ilambda < nbits div 2 then
        let lambda = fdiv f32 (f32 (of_nat ilambda)) (fnbits s)
        in ilambda_loop (Suc ilambda) (iphase_loop ilambda lambda 0 s)
      else s)"
  by pat_completeness auto
termination
  by (relation "measure (\<lambda>(ilambda, s). nbits div 2 - ilambda)") auto

text \<open>
  The constructor, given the stream of the engine seeded by \<^verbatim>\<open>TRandom3(1238123)\<close>:
  the histograms are booked empty, \<^verbatim>\<open>_fnbits(nbits)\<close> converts 36 to \<^verbatim>\<open>float\<close>.
\<close>

definition new_SquareWaveFitTest :: "fp stream \<Rightarrow> SquareWaveFitTest" where
  "new_SquareWaveFitTest rnd =
     ilambda_loop 2
       \<lparr>hover = [], hmod = [], hlambda = [], hphase = [], hwidth = [], hdur = [],
        bitmodels = [], lvec = [], p0vec = [], fvec = [], rand = rnd,
        fnbits = f32 (of_nat nbits)\<rparr>"

subsection \<open>The search\<close>

text \<open>
  \<^verbatim>\<open>unsigned bestOverlap(bset test, unsigned& bover)\<close>, over the member
  \<^verbatim>\<open>_bitmodels\<close>; the result is the pair of the returned index and \<^verbatim>\<open>bover\<close>.
  The counter \<^verbatim>\<open>imodel\<close> and \<^verbatim>\<open>overlap\<close> are \<^verbatim>\<open>size_t\<close>; assigning them to the
  \<^verbatim>\<open>unsigned\<close> \<^verbatim>\<open>retval\<close> and \<^verbatim>\<open>bover\<close> keeps the low 32 bits.
\<close>

definition to_unsigned :: "nat \<Rightarrow> nat" where
  "to_unsigned n = n mod 2 ^ 32"

function bestOverlap_loop :: "bset list \<Rightarrow> bset \<Rightarrow> nat \<Rightarrow> nat \<Rightarrow> nat \<Rightarrow> nat \<times> nat" where
  "bestOverlap_loop models test imodel retval bover =
     (if imodel < length models then
        let overlap = bset_count (models ! imodel XOR test)
        in if overlap < bover
           then bestOverlap_loop models test (Suc imodel) (to_unsigned imodel) (to_unsigned overlap)
           else bestOverlap_loop models test (Suc imodel) retval bover
      else (retval, bover))"
  by pat_completeness auto
termination
  by (relation "measure (\<lambda>(models, test, imodel, retval, bover). length models - imodel)") auto

definition bestOverlap :: "bset list \<Rightarrow> bset \<Rightarrow> nat \<times> nat" where
  "bestOverlap models test = bestOverlap_loop models test 0 0 (to_unsigned nbits)"

subsection \<open>The noise\<close>

text \<open>
  \<^verbatim>\<open>setRandom\<close>: one \<^verbatim>\<open>_rand.Uniform()\<close> per bit; the \<^verbatim>\<open>double\<close> \<^verbatim>\<open>rval\<close> is
  compared with \<^verbatim>\<open>eff\<close> and \<^verbatim>\<open>pur\<close> converted to \<^verbatim>\<open>double\<close>, which changes no
  value.  The result is the pair of \<^verbatim>\<open>rbits\<close> and the engine after the draws.
\<close>

function setRandom_loop :: "nat \<Rightarrow> bset \<Rightarrow> bset \<Rightarrow> fp \<Rightarrow> fp \<Rightarrow> fp stream \<Rightarrow> bset \<times> fp stream" where
  "setRandom_loop ibit model rbits eff pur rnd =
     (if ibit < nbits then
        let rval = shd rnd
        in if bset_test model ibit
           then setRandom_loop (Suc ibit) model (bset_set rbits ibit (flt rval eff)) eff pur (stl rnd)
           else setRandom_loop (Suc ibit) model (bset_set rbits ibit (fgt rval pur)) eff pur (stl rnd)
      else (rbits, rnd))"
  by pat_completeness auto
termination
  by (relation "measure (\<lambda>(ibit, model, rbits, eff, pur, rnd). nbits - ibit)") auto

definition setRandom :: "bset \<Rightarrow> bset \<Rightarrow> fp \<Rightarrow> fp \<Rightarrow> fp stream \<Rightarrow> bset \<times> fp stream" where
  "setRandom model rbits eff pur rnd = setRandom_loop 0 model rbits eff pur rnd"

subsection \<open>A trial run\<close>

text \<open>
  What \<^verbatim>\<open>test\<close> writes to \<^verbatim>\<open>std::cout\<close>, line by line, and the one way it can go
  wrong: \<^verbatim>\<open>operator[]\<close> of a vector at an index that is not below its size.
\<close>

datatype out = Illegal_values | Model_bits bset | Template_matches nat nat bset
  | Random_profile bset | Random_matches nat nat bset

datatype ub = Index_out_of_range

text \<open>
  The high-statistics loop.  \<open>clock itrial\<close> is the duration in microseconds that the
  clock measures for the search of trial \<open>itrial\<close>.
\<close>

function trials :: "nat \<Rightarrow> nat \<Rightarrow> bset \<Rightarrow> bset \<Rightarrow> fp \<Rightarrow> fp \<Rightarrow> (nat \<Rightarrow> nat) \<Rightarrow> SquareWaveFitTest
    \<Rightarrow> ub + SquareWaveFitTest" where
  "trials itrial ntrials model rbits eff pur clock s =
     (if itrial < ntrials then
        case setRandom model rbits eff pur (rand s) of (rbits', rnd') \<Rightarrow>
        case bestOverlap (bitmodels s) rbits' of (imod, bover) \<Rightarrow>
          if imod < length (lvec s) \<and> imod < length (p0vec s) \<and> imod < length (fvec s) then
            trials (Suc itrial) ntrials model rbits' eff pur clock
              (s\<lparr>rand := rnd',
                 hdur := hdur s @ [Fin (of_nat (clock itrial))],
                 hover := hover s @ [Fin (of_nat bover)],
                 hmod := hmod s @ [Fin (of_nat imod)],
                 hlambda := hlambda s @ [lvec s ! imod],
                 hphase := hphase s @ [p0vec s ! imod],
                 hwidth := hwidth s @ [fvec s ! imod]\<rparr>)
          else Inl Index_out_of_range
      else Inr s)"
  by pat_completeness auto
termination
  by (relation "measure (\<lambda>(itrial, ntrials, model, rbits, eff, pur, clock, s). ntrials - itrial)") auto

text \<open>
  \<^verbatim>\<open>int test(float lambda, float phase, float width, float eff, float pur, unsigned ntrials)\<close>:
  the result is the returned \<^verbatim>\<open>int\<close>, the lines written and the object afterwards.
\<close>

definition test :: "SquareWaveFitTest \<Rightarrow> fp \<Rightarrow> fp \<Rightarrow> fp \<Rightarrow> fp \<Rightarrow> fp \<Rightarrow> nat \<Rightarrow> (nat \<Rightarrow> nat)
    \<Rightarrow> ub + int \<times> out list \<times> SquareWaveFitTest" where
  "test s lambda phase width eff pur ntrials clock =
     (if badParams (fnbits s) lambda phase width then Inr (- 1, [Illegal_values], s)
      else
        let model = setbits 0 lambda phase width in
        case bestOverlap (bitmodels s) model of (imod, bover) \<Rightarrow>
        if \<not> imod < length (bitmodels s) then Inl Index_out_of_range
        else
          case setRandom model 0 eff pur (rand s) of (rbits, rnd) \<Rightarrow>
          case bestOverlap (bitmodels s) rbits of (imod', bover') \<Rightarrow>
          if \<not> imod' < length (bitmodels s) then Inl Index_out_of_range
          else
            (case trials 0 ntrials model rbits eff pur clock
                    (s\<lparr>rand := rnd, hdur := [], hover := [], hmod := [], hlambda := [],
                       hphase := [], hwidth := []\<rparr>) of
               Inl e \<Rightarrow> Inl e
             | Inr s' \<Rightarrow>
                 Inr (0,
                   [Model_bits model, Template_matches imod bover (bitmodels s ! imod),
                    Random_profile rbits, Random_matches imod' bover' (bitmodels s ! imod')],
                   s')))"

section \<open>Notions used in the statements\<close>

text \<open>A rational is a finite \<^verbatim>\<open>float\<close> when rounding to binary32 leaves it unchanged.\<close>

definition is_f32 :: "rat \<Rightarrow> bool" where
  "is_f32 x \<longleftrightarrow> f32 x = Fin x"

text \<open>
  The four \<^verbatim>\<open>push_back\<close>s of the constructor's loop body, for a list of models
  \<open>(bits, lambda, phase, width)\<close> at once.
\<close>

definition append_models :: "SquareWaveFitTest \<Rightarrow> (bset \<times> fp \<times> fp \<times> fp) list \<Rightarrow> SquareWaveFitTest" where
  "append_models s es =
     s\<lparr>bitmodels := bitmodels s @ map fst es,
       lvec := lvec s @ map (\<lambda>e. fst (snd e)) es,
       p0vec := p0vec s @ map (\<lambda>e. fst (snd (snd e))) es,
       fvec := fvec s @ map (\<lambda>e. snd (snd (snd e))) es\<rparr>"

text \<open>The model that the loop body builds at the counters \<open>(ilambda, iphase, iwidth)\<close>.\<close>

definition model_at :: "fp \<Rightarrow> nat \<Rightarrow> int \<Rightarrow> nat \<Rightarrow> bset \<times> fp \<times> fp \<times> fp" where
  "model_at fn ilambda iphase iwidth =
     (let lambda = fdiv f32 (f32 (of_nat ilambda)) fn;
          phase = fdiv f32 (f32 (of_int iphase)) fn;
          width = fdiv f32 (f32 (of_nat iwidth)) fn
      in (setbits 0 lambda phase width, lambda, phase, width))"

text \<open>
  The enumeration as the specification words it: wavelength steps from 2 through
  \<open>N / 2 - 1\<close>, for each of them phase steps from 0 through the wavelength step, for each
  of these width steps from 1 through the wavelength step less 2.
\<close>

definition spec_steps :: "nat \<Rightarrow> (nat \<times> nat \<times> nat) list" where
  "spec_steps N =
     concat (map (\<lambda>il. concat (map (\<lambda>ip. map (\<lambda>iw. (il, ip, iw)) [1..<Suc (il - 2)])
                                   [0..<Suc il]))
                 [2..<Suc (N div 2 - 1)])"

text \<open>
  The formula of \<^verbatim>\<open>squarewave\<close> at the sample centre \<open>(i + 0.5) / N\<close>, evaluated in exact
  rational arithmetic instead of \<^verbatim>\<open>float\<close>: the remainder of \<open>x - phase\<close> by
  \<open>lambda\<close> with the quotient truncated toward zero, \<open>lambda\<close> added when the remainder
  is negative, and the test \<open>0 \<le> val < width\<close>.
\<close>

definition exact_bit :: "rat \<Rightarrow> rat \<Rightarrow> rat \<Rightarrow> nat \<Rightarrow> nat \<Rightarrow> bool" where
  "exact_bit lambda phase width N i =
     (let x = (of_nat i + 1 / 2) / of_nat N;
          val = (x - phase) - of_int (trunc_rat ((x - phase) / lambda)) * lambda;
          val' = (if val < 0 then val + lambda else val)
      in 0 \<le> val' \<and> val' < width)"

section \<open>Facts about the bit set and the loops over its bits\<close>

declare setbits_loop.simps [simp del] bestOverlap_loop.simps [simp del]
  setRandom_loop.simps [simp del] trials.simps [simp del]
  iwidth_loop.simps [simp del] iphase_loop.simps [simp del] ilambda_loop.simps [simp del]

lemma bit_bset_set:
  "bit (bset_set bits pos val) i \<longleftrightarrow> (if i = pos \<and> pos < nbits then val else bit bits i)"
  by (auto simp: bset_set_def nbits_def bit_set_bit_iff bit_unset_bit_iff dest: bit_imp_le_length)

lemma bset_bit_less: "bit (w :: bset) i \<Longrightarrow> i < nbits"
  by (auto simp: nbits_def dest: bit_imp_le_length)

lemma bset_count_le: "bset_count w \<le> nbits"
  unfolding bset_count_def by (rule order_trans[OF length_filter_le]) simp

lemma bset_count_0_iff: "bset_count w = 0 \<longleftrightarrow> w = 0"
proof
  assume "bset_count w = 0"
  then have "\<forall>i<nbits. \<not> bit w i"
    by (auto simp: bset_count_def filter_empty_conv)
  then have "\<forall>i. \<not> bit w i" using bset_bit_less by blast
  then show "w = 0" by (simp add: bit_eq_iff)
next
  assume "w = 0" then show "bset_count w = 0" by (simp add: bset_count_def)
qed

lemma bset_count_zero: "bset_count 0 = 0"
  by (simp add: bset_count_0_iff)

lemma setbits_loop_bit:
  "bit (setbits_loop ibit bits lambda phase width) i \<longleftrightarrow>
     (if ibit \<le> i \<and> i < nbits
      then squarewave lambda phase width
             (fcast f32 (fdiv f64 (fadd f64 (f32 (of_nat i)) (Fin (1 / 2))) (f32 (of_nat nbits))))
      else bit bits i)"
proof (induction ibit bits lambda phase width rule: setbits_loop.induct)
  case (1 ibit bits lambda phase width)
  show ?case
  proof (cases "ibit < nbits")
    case True
    then show ?thesis
      using "1.IH"[OF True refl]
      by (subst setbits_loop.simps) (auto simp: Let_def bit_bset_set)
  next
    case False
    then show ?thesis
      by (subst setbits_loop.simps) auto
  qed
qed

lemma snth_shift: "Suc k \<le> i \<Longrightarrow> rnd !! (i - k) = stl rnd !! (i - Suc k)"
  by (metis Suc_diff_Suc Suc_le_lessD snth.simps(2))

lemma setRandom_loop_bit:
  "bit (fst (setRandom_loop ibit model rbits eff pur rnd)) i \<longleftrightarrow>
     (if ibit \<le> i \<and> i < nbits
      then (if bit model i then flt (rnd !! (i - ibit)) eff else fgt (rnd !! (i - ibit)) pur)
      else bit rbits i)"
proof (induction ibit model rbits eff pur rnd rule: setRandom_loop.induct)
  case (1 ibit model rbits eff pur rnd)
  show ?case
  proof (cases "ibit < nbits")
    case True
    show ?thesis
    proof (cases "bset_test model ibit")
      case T: True
      show ?thesis
        using "1.IH"(1)[OF True refl T] True T
        apply (subst setRandom_loop.simps)
        apply (auto simp: Let_def bit_bset_set bset_test_def snth_shift)
        done
    next
      case F: False
      show ?thesis
        using "1.IH"(2)[OF True refl F] True F
        apply (subst setRandom_loop.simps)
        apply (auto simp: Let_def bit_bset_set bset_test_def snth_shift)
        done
    qed
  next
    case False
    then show ?thesis
      by (subst setRandom_loop.simps) auto
  qed
qed

lemma setRandom_loop_rand:
  "snd (setRandom_loop ibit model rbits eff pur rnd) = sdrop (nbits - ibit) rnd"
proof (induction ibit model rbits eff pur rnd rule: setRandom_loop.induct)
  case (1 ibit model rbits eff pur rnd)
  show ?case
  proof (cases "ibit < nbits")
    case True
    then have *: "nbits - ibit = Suc (nbits - Suc ibit)" by simp
    show ?thesis
      using "1.IH"(1)[OF True refl] "1.IH"(2)[OF True refl] True
      apply (subst setRandom_loop.simps)
      apply (simp add: Let_def *)
      done
  next
    case False
    then show ?thesis
      by (subst setRandom_loop.simps) auto
  qed
qed

lemma bit_not_bset: "bit (NOT (w :: bset)) i \<longleftrightarrow> i < nbits \<and> \<not> bit w i"
  by (auto simp: bit_not_iff nbits_def)

lemma bset_xor_eq_0: "(a :: bset) XOR b = 0 \<longleftrightarrow> a = b"
  by (auto simp: bit_eq_iff bit_xor_iff)

section \<open>Facts about the search loop\<close>

lemma to_unsigned_small: "n < 2 ^ 32 \<Longrightarrow> to_unsigned n = n"
  by (simp add: to_unsigned_def)

lemma to_unsigned_count: "to_unsigned (bset_count w) = bset_count w"
proof -
  have "bset_count w \<le> 36" using bset_count_le[of w] by (simp add: nbits_def)
  then show ?thesis by (simp add: to_unsigned_def)
qed

lemma bestOverlap_loop_spec:
  assumes len: "length lib \<le> 2 ^ 32"
  shows "case bestOverlap_loop lib obs k r0 b0 of (r, b) \<Rightarrow>
           b \<le> b0 \<and> (\<forall>j. k \<le> j \<and> j < length lib \<longrightarrow> b \<le> bset_count (lib ! j XOR obs)) \<and>
           (r = r0 \<and> b = b0 \<or>
            k \<le> r \<and> r < length lib \<and> bset_count (lib ! r XOR obs) = b \<and> b < b0 \<and>
            (\<forall>j. k \<le> j \<and> j < r \<longrightarrow> b < bset_count (lib ! j XOR obs)))"
  using len
proof (induction lib obs k r0 b0 rule: bestOverlap_loop.induct)
  case (1 models test imodel retval bover)
  let ?d = "\<lambda>j. bset_count (models ! j XOR test)"
  show ?case
  proof (cases "imodel < length models")
    case False
    then show ?thesis by (subst bestOverlap_loop.simps) simp
  next
    case True
    then have u: "to_unsigned imodel = imodel"
      using "1.prems" by (intro to_unsigned_small) simp
    show ?thesis
    proof (cases "?d imodel < bover")
      case less: True
      obtain r b where rb: "bestOverlap_loop models test (Suc imodel) imodel (?d imodel) = (r, b)"
        by (cases "bestOverlap_loop models test (Suc imodel) imodel (?d imodel)")
      have ih: "b \<le> ?d imodel \<and> (\<forall>j. Suc imodel \<le> j \<and> j < length models \<longrightarrow> b \<le> ?d j) \<and>
           (r = imodel \<and> b = ?d imodel \<or>
            Suc imodel \<le> r \<and> r < length models \<and> ?d r = b \<and> b < ?d imodel \<and>
            (\<forall>j. Suc imodel \<le> j \<and> j < r \<longrightarrow> b < ?d j))"
        using "1.IH"(1)[OF True refl less "1.prems"] rb by (simp add: u to_unsigned_count)
      have res: "bestOverlap_loop models test imodel retval bover = (r, b)"
        using True less rb by (subst bestOverlap_loop.simps) (simp add: Let_def u to_unsigned_count)
      have a: "b \<le> bover" using ih less by linarith
      have b: "\<forall>j. imodel \<le> j \<and> j < length models \<longrightarrow> b \<le> ?d j"
      proof (intro allI impI)
        fix j assume "imodel \<le> j \<and> j < length models"
        then show "b \<le> ?d j" using ih by (cases "j = imodel") auto
      qed
      have c: "imodel \<le> r \<and> r < length models \<and> ?d r = b \<and> b < bover \<and>
            (\<forall>j. imodel \<le> j \<and> j < r \<longrightarrow> b < ?d j)"
      proof (cases "r = imodel \<and> b = ?d imodel")
        case True
        then show ?thesis using \<open>imodel < length models\<close> less by auto
      next
        case False
        then have f: "Suc imodel \<le> r \<and> r < length models \<and> ?d r = b \<and> b < ?d imodel \<and>
            (\<forall>j. Suc imodel \<le> j \<and> j < r \<longrightarrow> b < ?d j)" using ih by blast
        have "\<forall>j. imodel \<le> j \<and> j < r \<longrightarrow> b < ?d j"
        proof (intro allI impI)
          fix j assume "imodel \<le> j \<and> j < r"
          then show "b < ?d j" using f by (cases "j = imodel") auto
        qed
        then show ?thesis using f less by auto
      qed
      show ?thesis unfolding res using a b c by simp
    next
      case nless: False
      obtain r b where rb: "bestOverlap_loop models test (Suc imodel) retval bover = (r, b)"
        by (cases "bestOverlap_loop models test (Suc imodel) retval bover")
      have ih: "b \<le> bover \<and> (\<forall>j. Suc imodel \<le> j \<and> j < length models \<longrightarrow> b \<le> ?d j) \<and>
           (r = retval \<and> b = bover \<or>
            Suc imodel \<le> r \<and> r < length models \<and> ?d r = b \<and> b < bover \<and>
            (\<forall>j. Suc imodel \<le> j \<and> j < r \<longrightarrow> b < ?d j))"
        using "1.IH"(2)[OF True refl nless "1.prems"] rb by simp
      have res: "bestOverlap_loop models test imodel retval bover = (r, b)"
        using True nless rb by (subst bestOverlap_loop.simps) (simp add: Let_def)
      have b: "\<forall>j. imodel \<le> j \<and> j < length models \<longrightarrow> b \<le> ?d j"
      proof (intro allI impI)
        fix j assume "imodel \<le> j \<and> j < length models"
        then show "b \<le> ?d j" using ih nless by (cases "j = imodel") auto
      qed
      have c: "r = retval \<and> b = bover \<or>
            imodel \<le> r \<and> r < length models \<and> ?d r = b \<and> b < bover \<and>
            (\<forall>j. imodel \<le> j \<and> j < r \<longrightarrow> b < ?d j)"
      proof (cases "r = retval \<and> b = bover")
        case True
        then show ?thesis by simp
      next
        case False
        then have f: "Suc imodel \<le> r \<and> r < length models \<and> ?d r = b \<and> b < bover \<and>
            (\<forall>j. Suc imodel \<le> j \<and> j < r \<longrightarrow> b < ?d j)" using ih by blast
        have "\<forall>j. imodel \<le> j \<and> j < r \<longrightarrow> b < ?d j"
        proof (intro allI impI)
          fix j assume "imodel \<le> j \<and> j < r"
          then show "b < ?d j" using f nless by (cases "j = imodel") auto
        qed
        then show ?thesis using f by auto
      qed
      show ?thesis unfolding res using ih b c by simp
    qed
  qed
qed

lemma bestOverlap_spec:
  assumes ne: "lib \<noteq> []" and len: "length lib \<le> 2 ^ 32"
  obtains r b where "bestOverlap lib obs = (r, b)" "r < length lib"
    "b = bset_count (lib ! r XOR obs)"
    "\<forall>j<length lib. b \<le> bset_count (lib ! j XOR obs)"
    "\<forall>j<r. b < bset_count (lib ! j XOR obs)"
proof -
  let ?d = "\<lambda>j. bset_count (lib ! j XOR obs)"
  obtain r b where rb: "bestOverlap_loop lib obs 0 0 nbits = (r, b)"
    by (cases "bestOverlap_loop lib obs 0 0 nbits")
  have n: "to_unsigned nbits = nbits" by (simp add: to_unsigned_def nbits_def)
  have sp: "b \<le> nbits \<and> (\<forall>j. j < length lib \<longrightarrow> b \<le> ?d j) \<and>
           (r = 0 \<and> b = nbits \<or>
            r < length lib \<and> ?d r = b \<and> b < nbits \<and> (\<forall>j. j < r \<longrightarrow> b < ?d j))"
    using bestOverlap_loop_spec[OF len, where obs = obs and k = 0 and ?r0.0 = 0 and ?b0.0 = nbits] rb by simp
  have "r < length lib \<and> b = ?d r \<and> (\<forall>j<r. b < ?d j)"
  proof (cases "r = 0 \<and> b = nbits")
    case True
    have "0 < length lib" using ne by simp
    moreover have "nbits \<le> ?d 0" using sp True calculation by auto
    then have "?d 0 = nbits" using bset_count_le[of "lib ! 0 XOR obs"] by simp
    ultimately show ?thesis using True by simp
  next
    case False
    then show ?thesis using sp by auto
  qed
  moreover have "bestOverlap lib obs = (r, b)" using rb by (simp add: bestOverlap_def n)
  moreover have "\<forall>j<length lib. b \<le> ?d j" using sp by blast
  ultimately show ?thesis using that[of r b] by blast
qed

section \<open>Facts about rounding\<close>

text \<open>
  The binary exponent is what its name says, rounding to the nearest integer errs by at
  most a half, and so rounding to a format errs by at most half a unit in the last place
  (\<open>fround_err\<close>); a value is rounded to the neighbour that a certificate names
  (\<open>fround_cert\<close>), a value of the format is left alone (\<open>fround_exact\<close>), and a
  value that rounding leaves alone lies on the grid of its binade
  (\<open>fround_fixed_grid\<close>).
\<close>

lemma powi_nonneg_eq: "0 \<le> k \<Longrightarrow> (2::rat) powi k = of_int (2 ^ nat k)"
  by (simp add: power_int_def)

lemma powi_lt_cancel: "(2::rat) powi a < 2 powi b \<Longrightarrow> a < b"
proof (rule ccontr)
  assume lt: "(2::rat) powi a < 2 powi b" and "\<not> a < b"
  then have "b \<le> a" by simp
  then have "(2::rat) powi b \<le> 2 powi a" by (intro power_int_increasing) simp_all
  with lt show False by simp
qed

lemma powi_mono: "a \<le> b \<Longrightarrow> (2::rat) powi a \<le> 2 powi b"
  by (intro power_int_increasing) simp_all

lemma powi_add: "(2::rat) powi (a + b) = 2 powi a * 2 powi b"
  by (simp add: power_int_add)

lemma powi_Suc: "(2::rat) powi (a + 1) = 2 * 2 powi a"
  by (simp add: power_int_add)

lemma bitlen_rat_bounds:
  assumes "0 < a"
  shows "(2::rat) powi (bitlen a - 1) \<le> of_int a" "of_int a < (2::rat) powi (bitlen a)"
proof -
  have b1: "1 \<le> bitlen a" using assms bitlen_eq_zero_iff[of a] bitlen_nonneg[of a] by linarith
  have "2 ^ nat (bitlen a - 1) \<le> a" "a < 2 ^ nat (bitlen a)"
    using bitlen_bounds[OF assms] by simp_all
  then have "(of_int (2 ^ nat (bitlen a - 1)) :: rat) \<le> of_int a"
    "(of_int a :: rat) < of_int (2 ^ nat (bitlen a))"
    by (simp_all only: of_int_le_iff of_int_less_iff)
  then show "(2::rat) powi (bitlen a - 1) \<le> of_int a" "of_int a < (2::rat) powi (bitlen a)"
    using b1 by (simp_all add: powi_nonneg_eq)
qed

lemma ilog2_bounds:
  assumes "x \<noteq> 0"
  shows "2 powi (ilog2 x) \<le> \<bar>x\<bar>" and "\<bar>x\<bar> < 2 powi (ilog2 x + 1)"
proof -
  obtain a b where ab: "quotient_of \<bar>x\<bar> = (a, b)" by (cases "quotient_of \<bar>x\<bar>")
  have b0: "0 < b" using quotient_of_denom_pos[OF ab] .
  have xab: "\<bar>x\<bar> = of_int a / of_int b" using quotient_of_div[OF ab] .
  have "0 < \<bar>x\<bar>" using assms by simp
  then have a0: "0 < a" using b0 xab by (simp add: zero_less_divide_iff)
  let ?d = "bitlen a - bitlen b"
  have bpos: "(0::rat) < of_int b" using b0 by simp
  have up: "\<bar>x\<bar> < 2 powi (?d + 1)"
  proof -
    have "of_int a < (2 powi (?d + 1)) * (2::rat) powi (bitlen b - 1)"
      using bitlen_rat_bounds(2)[OF a0] by (simp flip: power_int_add)
    also have "\<dots> \<le> (2 powi (?d + 1)) * of_int b"
      using bitlen_rat_bounds(1)[OF b0] by (intro mult_left_mono) simp_all
    finally show ?thesis using bpos by (simp add: xab pos_divide_less_eq)
  qed
  have lo: "2 powi (?d - 1) < \<bar>x\<bar>"
  proof -
    have "(2 powi (?d - 1)) * of_int b < (2 powi (?d - 1)) * (2::rat) powi (bitlen b)"
      using bitlen_rat_bounds(2)[OF b0] by (intro mult_strict_left_mono) simp_all
    also have "\<dots> = 2 powi (bitlen a - 1)" by (simp flip: power_int_add)
    also have "\<dots> \<le> of_int a" using bitlen_rat_bounds(1)[OF a0] .
    finally show ?thesis using bpos by (simp add: xab pos_less_divide_eq)
  qed
  have il: "ilog2 x = (if 2 powi ?d \<le> \<bar>x\<bar> then ?d else ?d - 1)"
    by (simp add: ilog2_def ab Let_def)
  show "2 powi (ilog2 x) \<le> \<bar>x\<bar>" using lo by (simp add: il)
  show "\<bar>x\<bar> < 2 powi (ilog2 x + 1)" using up by (auto simp: il not_le)
qed

lemma powi_le_abs_nonzero:
  assumes "(2::rat) powi e \<le> \<bar>x\<bar>"
  shows "x \<noteq> 0"
proof
  assume x: "x = 0"
  have "(0::rat) < 2 powi e" by simp
  also have "\<dots> \<le> \<bar>x\<bar>" by fact
  finally show False using x by simp
qed

lemma ilog2_unique:
  assumes "2 powi e \<le> \<bar>x\<bar>" and "\<bar>x\<bar> < 2 powi (e + 1)"
  shows "ilog2 x = e"
proof -
  have x0: "x \<noteq> 0" using assms(1) by (rule powi_le_abs_nonzero)
  have "(2::rat) powi (ilog2 x) < 2 powi (e + 1)"
    using ilog2_bounds(1)[OF x0] assms(2) by (rule le_less_trans)
  then have 1: "ilog2 x < e + 1" by (rule powi_lt_cancel)
  have "(2::rat) powi e < 2 powi (ilog2 x + 1)"
    using assms(1) ilog2_bounds(2)[OF x0] by (rule le_less_trans)
  then have 2: "e < ilog2 x + 1" by (rule powi_lt_cancel)
  from 1 2 show ?thesis by simp
qed

lemma ilog2_le:
  assumes "x \<noteq> 0" and "\<bar>x\<bar> < 2 powi (k + 1)"
  shows "ilog2 x \<le> k"
proof -
  have "(2::rat) powi (ilog2 x) < 2 powi (k + 1)"
    using ilog2_bounds(1)[OF assms(1)] assms(2) by (rule le_less_trans)
  then have "ilog2 x < k + 1" by (rule powi_lt_cancel)
  then show ?thesis by simp
qed

lemma ilog2_ge:
  assumes "2 powi k \<le> \<bar>x\<bar>"
  shows "k \<le> ilog2 x"
proof -
  have x0: "x \<noteq> 0" using assms by (rule powi_le_abs_nonzero)
  have "(2::rat) powi k < 2 powi (ilog2 x + 1)"
    using assms ilog2_bounds(2)[OF x0] by (rule le_less_trans)
  then have "k < ilog2 x + 1" by (rule powi_lt_cancel)
  then show ?thesis by simp
qed

lemma round_even_unique:
  assumes "of_int n - 1 / 2 < q" and "q < of_int n + 1 / 2"
  shows "round_even q = n"
proof -
  have "\<lfloor>q\<rfloor> = n \<or> \<lfloor>q\<rfloor> = n - 1"
  proof -
    have "of_int (n - 1) \<le> q" "q < of_int (n + 1)" using assms by simp_all
    then have "n - 1 \<le> \<lfloor>q\<rfloor>" "\<lfloor>q\<rfloor> < n + 1" by (simp_all only: le_floor_iff floor_less_iff)
    then show ?thesis by linarith
  qed
  then show ?thesis
  proof
    assume f: "\<lfloor>q\<rfloor> = n"
    then show ?thesis using assms by (simp add: round_even_def Let_def)
  next
    assume f: "\<lfloor>q\<rfloor> = n - 1"
    then show ?thesis using assms by (simp add: round_even_def Let_def)
  qed
qed

lemma round_even_of_int: "round_even (of_int n) = n"
  by (rule round_even_unique) simp_all

lemma round_even_err: "\<bar>of_int (round_even q) - q\<bar> \<le> 1 / 2"
proof -
  have "of_int \<lfloor>q\<rfloor> \<le> q" "q < of_int \<lfloor>q\<rfloor> + 1" by linarith+
  then show ?thesis by (auto simp: round_even_def Let_def)
qed

lemma fround_unfold:
  assumes "x \<noteq> 0" and "e = max (ilog2 x) (1 - emax)"
    and "r = of_int (round_even (x / 2 powi (e - int p + 1))) * (2::rat) powi (e - int p + 1)"
  shows "fround p emax x =
    (if 2 powi (emax + 1) \<le> \<bar>r\<bar> then (if 0 < x then PInf else NInf) else Fin r)"
  using assms by (simp add: fround_def Let_def)

lemma fround_err:
  assumes lt: "\<bar>x\<bar> < 2 powi (k + 1)" and lo: "1 - emax \<le> k" and hi: "k < emax"
  obtains r where "fround p emax x = Fin r" and "\<bar>r - x\<bar> \<le> 2 powi (k - int p)"
proof (cases "x = 0")
  case True
  then have "fround p emax x = Fin 0" "\<bar>0 - x\<bar> \<le> 2 powi (k - int p)"
    by (simp_all add: fround_def)
  then show ?thesis using that by blast
next
  case False
  define e where "e = max (ilog2 x) (1 - emax)"
  define u :: rat where "u = 2 powi (e - int p + 1)"
  define r where "r = of_int (round_even (x / u)) * u"
  have ek: "e \<le> k" using ilog2_le[OF False lt] lo by (simp add: e_def)
  have u0: "0 < u" by (simp add: u_def)
  have "\<bar>r - x\<bar> = \<bar>of_int (round_even (x / u)) - x / u\<bar> * u"
  proof -
    have "r - x = (of_int (round_even (x / u)) - x / u) * u"
      using u0 by (simp add: r_def algebra_simps)
    then show ?thesis using u0 by (simp add: abs_mult)
  qed
  also have "\<dots> \<le> (1 / 2) * u"
    using round_even_err[of "x / u"] u0 by (intro mult_right_mono) simp_all
  also have "\<dots> = 2 powi (e - int p)"
    by (simp add: u_def power_int_add)
  also have "\<dots> \<le> 2 powi (k - int p)"
    using ek by (intro powi_mono) simp
  finally have err: "\<bar>r - x\<bar> \<le> 2 powi (k - int p)" .
  have "\<bar>r\<bar> \<le> \<bar>x\<bar> + \<bar>r - x\<bar>" by simp
  also have "\<dots> < 2 powi (k + 1) + 2 powi (k - int p)"
    using lt err by simp
  also have "\<dots> \<le> 2 powi (k + 1) + 2 powi (k + 1)"
    by (intro add_left_mono powi_mono) simp
  also have "\<dots> = 2 powi (k + 2)"
    by (simp add: power_int_add)
  also have "\<dots> \<le> 2 powi (emax + 1)"
    using hi by (intro powi_mono) simp
  finally have "\<not> 2 powi (emax + 1) \<le> \<bar>r\<bar>" by simp
  then have "fround p emax x = Fin r"
    using fround_unfold[OF False e_def, of r p] by (simp add: r_def u_def)
  then show ?thesis using err that by blast
qed

lemma fround_cert:
  assumes lo: "2 powi e \<le> \<bar>x\<bar>" and hi: "\<bar>x\<bar> < 2 powi (e + 1)"
    and e1: "1 - emax \<le> e" and e2: "e < emax"
    and n1: "of_int n - 1 / 2 < x / 2 powi (e - int p + 1)"
    and n2: "x / 2 powi (e - int p + 1) < of_int n + 1 / 2"
  shows "fround p emax x = Fin (of_int n * 2 powi (e - int p + 1))"
proof -
  have x0: "x \<noteq> 0" using lo by (rule powi_le_abs_nonzero)
  have il: "max (ilog2 x) (1 - emax) = e"
    using ilog2_unique[OF lo hi] e1 by simp
  have rn: "round_even (x / 2 powi (e - int p + 1)) = n"
    using n1 n2 by (rule round_even_unique)
  obtain r where r: "fround p emax x = Fin r"
    using fround_err[OF hi e1 e2] by blast
  show ?thesis
    using r fround_unfold[OF x0 il[symmetric] refl, of p] by (simp add: rn split: if_splits)
qed

lemma fround_exact:
  assumes x: "x = of_int m * 2 powi j" and lt: "\<bar>x\<bar> < 2 powi (int p + j)"
    and j1: "2 - int p - emax \<le> j" and j2: "int p + j \<le> emax + 1"
  shows "fround p emax x = Fin x"
proof (cases "x = 0")
  case True
  then show ?thesis by (simp add: fround_def)
next
  case False
  define e where "e = max (ilog2 x) (1 - emax)"
  have "ilog2 x \<le> int p + j - 1"
    using ilog2_le[OF False, of "int p + j - 1"] lt by simp
  then have ej: "e - int p + 1 \<le> j" using j1 by (simp add: e_def)
  define t where "t = nat (j - (e - int p + 1))"
  have "(2::rat) powi j = 2 powi (int t) * 2 powi (e - int p + 1)"
    using ej by (simp add: t_def flip: power_int_add)
  then have xq: "x / 2 powi (e - int p + 1) = of_int (m * 2 ^ t)"
    by (simp add: x)
  have rn: "of_int (round_even (x / 2 powi (e - int p + 1))) * 2 powi (e - int p + 1) = x"
    unfolding xq round_even_of_int using xq by (simp add: field_simps)
  have "\<bar>x\<bar> < 2 powi (emax + 1)"
    using lt powi_mono[OF j2] by (rule less_le_trans)
  then show ?thesis
    using fround_unfold[OF False e_def refl, of p] by (simp add: rn)
qed

lemma fround_fixed_grid:
  assumes fx: "fround p emax x = Fin x" and lo: "2 powi k \<le> \<bar>x\<bar>"
  obtains m :: int where "x = of_int m * 2 powi (k - int p + 1)"
proof -
  have x0: "x \<noteq> 0" using lo by (rule powi_le_abs_nonzero)
  define e where "e = max (ilog2 x) (1 - emax)"
  have ke: "k \<le> e" using ilog2_ge[OF lo] by (simp add: e_def)
  define n where "n = round_even (x / 2 powi (e - int p + 1))"
  have "x = of_int n * 2 powi (e - int p + 1)"
    using fx fround_unfold[OF x0 e_def refl, of p] by (simp add: n_def split: if_splits)
  moreover have "(2::rat) powi (e - int p + 1) = of_int (2 ^ nat (e - k)) * 2 powi (k - int p + 1)"
  proof -
    have eq: "e - int p + 1 = int (nat (e - k)) + (k - int p + 1)" using ke by simp
    have "(2::rat) powi (e - int p + 1) = 2 powi (int (nat (e - k))) * 2 powi (k - int p + 1)"
      by (subst eq) (rule powi_add)
    also have "(2::rat) powi (int (nat (e - k))) = of_int (2 ^ nat (e - k))"
      by (simp only: power_int_of_nat) simp
    finally show ?thesis .
  qed
  ultimately have "x = of_int (n * 2 ^ nat (e - k)) * 2 powi (k - int p + 1)"
    by simp
  then show ?thesis using that by blast
qed

lemma f32_of_int: "\<bar>n\<bar> < 2 ^ 24 \<Longrightarrow> f32 (of_int n) = Fin (of_int n)"
proof -
  assume a: "\<bar>n\<bar> < 2 ^ 24"
  have "\<bar>of_int n :: rat\<bar> = of_int \<bar>n\<bar>" by simp
  also have "\<dots> < of_int (2 ^ 24)" using a by (simp only: of_int_less_iff)
  finally have "\<bar>of_int n :: rat\<bar> < 2 powi (int 24 + 0)" by simp
  then show ?thesis
    unfolding f32_def by (intro fround_exact[where m = n and j = 0]) simp_all
qed

lemma f32_of_nat: "n < 2 ^ 24 \<Longrightarrow> f32 (of_nat n) = Fin (of_nat n)"
  using f32_of_int[of "int n"] by simp

lemma f32_36: "f32 36 = Fin 36"
  using f32_of_nat[of 36] by simp

lemma f32_nbits: "f32 (of_nat nbits) = Fin 36"
  using f32_of_nat[of nbits] by (simp add: nbits_def)

lemma f64_half: "n < 2 ^ 51 \<Longrightarrow> f64 (of_nat n + 1 / 2) = Fin (of_nat n + 1 / 2)"
proof -
  assume a: "n < 2 ^ 51"
  have x: "(of_nat n + 1 / 2 :: rat) = of_int (2 * int n + 1) * 2 powi (- 1)"
    by (simp add: field_simps)
  have "(of_nat n :: rat) < of_nat (2 ^ 51)" using a by (simp only: of_nat_less_iff)
  then have "\<bar>of_nat n + 1 / 2 :: rat\<bar> < 2 powi (int 53 + (- 1))" by simp
  then show ?thesis
    unfolding f64_def by (intro fround_exact[where m = "2 * int n + 1" and j = "- 1"] x) simp_all
qed

lemma f64_36th: "f64 (1 / 36) = Fin (2001599834386887 / 72057594037927936)"
proof -
  have "fround 53 1023 (1 / 36) = Fin (of_int 8006399337547548 * 2 powi (- 6 - int 53 + 1))"
    by (rule fround_cert) simp_all
  then show ?thesis by (simp add: f64_def)
qed

lemma f64_18th: "f64 (1 / 18) = Fin (2001599834386887 / 36028797018963968)"
proof -
  have "fround 53 1023 (1 / 18) = Fin (of_int 8006399337547548 * 2 powi (- 5 - int 53 + 1))"
    by (rule fround_cert) simp_all
  then show ?thesis by (simp add: f64_def)
qed

lemma f32_36th: "f32 (1 / 36) = Fin (14913081 / 536870912)"
proof -
  have "fround 24 127 (1 / 36) = Fin (of_int 14913081 * 2 powi (- 6 - int 24 + 1))"
    by (rule fround_cert) simp_all
  then show ?thesis by (simp add: f32_def)
qed

lemma f32_18th: "f32 (1 / 18) = Fin (14913081 / 268435456)"
proof -
  have "fround 24 127 (1 / 18) = Fin (of_int 14913081 * 2 powi (- 5 - int 24 + 1))"
    by (rule fround_cert) simp_all
  then show ?thesis by (simp add: f32_def)
qed

lemma f32_err_half:
  assumes "\<bar>x\<bar> < 1 / 2"
  obtains t where "f32 x = Fin t" and "\<bar>t - x\<bar> \<le> 1 / 67108864"
proof -
  have "\<bar>x\<bar> < 2 powi (- 2 + 1)" using assms by simp
  then obtain t where "fround 24 127 x = Fin t" "\<bar>t - x\<bar> \<le> 2 powi (- 2 - int 24)"
    by (rule fround_err[where p = 24 and emax = 127]) simp_all
  then show ?thesis using that by (simp add: f32_def)
qed

lemma f64_err_half:
  assumes "\<bar>x\<bar> < 1 / 2"
  obtains t where "f64 x = Fin t" and "\<bar>t - x\<bar> \<le> 1 / 36028797018963968"
proof -
  have "\<bar>x\<bar> < 2 powi (- 2 + 1)" using assms by simp
  then obtain t where "fround 53 1023 x = Fin t" "\<bar>t - x\<bar> \<le> 2 powi (- 2 - int 53)"
    by (rule fround_err[where p = 53 and emax = 1023]) simp_all
  then show ?thesis using that by (simp add: f64_def)
qed

lemma f32_eighth: "f32 (1 / 8) = Fin (1 / 8)"
  unfolding f32_def by (rule fround_exact[where m = 1 and j = "- 3"]) simp_all


lemma is_f32_quarter: "is_f32 (1 / 4)"
  unfolding is_f32_def f32_def by (rule fround_exact[where m = 1 and j = "- 2"]) simp_all

lemma is_f32_eighth: "is_f32 (1 / 8)"
  by (simp add: is_f32_def f32_eighth)

lemma f32_grid:
  assumes "is_f32 x" and "2 powi k \<le> \<bar>x\<bar>"
  obtains m :: int where "x = of_int m * 2 powi (k - 23)"
proof -
  have "fround 24 127 x = Fin x" using assms(1) by (simp add: is_f32_def f32_def)
  then obtain m :: int where "x = of_int m * 2 powi (k - int 24 + 1)"
    using assms(2) by (rule fround_fixed_grid)
  then have "x = of_int m * 2 powi (k - 23)" by simp
  then show ?thesis using that by blast
qed

lemma int_below:
  assumes "(of_int m :: rat) < of_int n"
  shows "(of_int m :: rat) \<le> of_int (n - 1)"
proof -
  have "m < n" using assms by (simp only: of_int_less_iff)
  then have "m \<le> n - 1" by simp
  then show ?thesis by (simp only: of_int_le_iff)
qed

lemma int_above:
  assumes "(of_int n :: rat) < of_int m"
  shows "(of_int (n + 1) :: rat) \<le> of_int m"
proof -
  have "n < m" using assms by (simp only: of_int_less_iff)
  then have "n + 1 \<le> m" by simp
  then show ?thesis by (simp only: of_int_le_iff)
qed

section \<open>Facts about the sampling\<close>

lemma sample_center:
  assumes "i < nbits"
  shows "fcast f32 (fdiv f64 (fadd f64 (f32 (of_nat i)) (Fin (1 / 2))) (f32 (of_nat nbits)))
     = fcast f32 (f64 ((of_nat i + 1 / 2) / of_nat nbits))"
proof -
  have i: "i < 36" using assms by (simp add: nbits_def)
  then have a: "f32 (of_nat i) = Fin (of_nat i)" by (intro f32_of_nat) simp
  have b: "f64 (of_nat i + 1 / 2) = Fin (of_nat i + 1 / 2)" using i by (intro f64_half) simp
  have c: "f32 36 = Fin 36" using f32_of_nat[of 36] by simp
  show ?thesis by (simp add: a b c nbits_def)
qed

section \<open>Facts about the parameter check\<close>

text \<open>
  The thresholds \<^verbatim>\<open>2.0/_fnbits\<close> and \<^verbatim>\<open>1.0/_fnbits\<close> are the \<^verbatim>\<open>double\<close>s next
  below \<open>1 / 18\<close> and \<open>1 / 36\<close>.  No \<^verbatim>\<open>float\<close> lies between such a threshold and
  the exact bound, and the rounded difference \<^verbatim>\<open>lambda-1.0/_fnbits\<close> is closer to the
  exact \<open>lambda - 1 / 36\<close> than any \<^verbatim>\<open>float\<close> \<^verbatim>\<open>width\<close> in range can be: on
  \<^verbatim>\<open>float\<close>s each comparison of \<^verbatim>\<open>badParams\<close> decides the exact inequality.
\<close>

lemma lambda_low:
  assumes "is_f32 l"
  shows "l < 2001599834386887 / 36028797018963968 \<longleftrightarrow> l < 1 / 18"
proof
  assume "l < 2001599834386887 / 36028797018963968"
  then show "l < 1 / 18" by linarith
next
  assume a: "l < 1 / 18"
  show "l < 2001599834386887 / 36028797018963968"
  proof (cases "l < 1 / 32")
    case True
    then show ?thesis by linarith
  next
    case False
    then have g: "2 powi (- 5) \<le> \<bar>l\<bar>" by simp
    obtain m :: int where "l = of_int m * 2 powi (- 5 - 23)"
      using f32_grid[OF assms g] by blast
    then have m: "l = of_int m / 268435456" by simp
    have "(of_int m :: rat) < of_int 14913081" using a unfolding m by simp
    then have "(of_int m :: rat) \<le> of_int (14913081 - 1)" by (rule int_below)
    then have "l \<le> 14913080 / 268435456" unfolding m by simp
    then show ?thesis by linarith
  qed
qed

lemma width_low:
  assumes "is_f32 w"
  shows "w < 2001599834386887 / 72057594037927936 \<longleftrightarrow> w < 1 / 36"
proof
  assume "w < 2001599834386887 / 72057594037927936"
  then show "w < 1 / 36" by linarith
next
  assume a: "w < 1 / 36"
  show "w < 2001599834386887 / 72057594037927936"
  proof (cases "w < 1 / 64")
    case True
    then show ?thesis by linarith
  next
    case False
    then have g: "2 powi (- 6) \<le> \<bar>w\<bar>" by simp
    obtain m :: int where "w = of_int m * 2 powi (- 6 - 23)"
      using f32_grid[OF assms g] by blast
    then have m: "w = of_int m / 536870912" by simp
    have "(of_int m :: rat) < of_int 14913081" using a unfolding m by simp
    then have "(of_int m :: rat) \<le> of_int (14913081 - 1)" by (rule int_below)
    then have "w \<le> 14913080 / 536870912" unfolding m by simp
    then show ?thesis by linarith
  qed
qed

lemma width_high:
  assumes l: "is_f32 l" and w: "is_f32 w"
    and l1: "1 / 18 \<le> l" and l2: "l \<le> 1 / 2" and w1: "1 / 36 \<le> w"
  obtains r where "f64 (l - 2001599834386887 / 72057594037927936) = Fin r"
    and "r < w \<longleftrightarrow> l - 1 / 36 < w"
proof -
  let ?c1 = "2001599834386887 / 72057594037927936 :: rat"
  have "\<bar>l - ?c1\<bar> < 1 / 2" using l1 l2 by linarith
  then obtain r where r: "f64 (l - ?c1) = Fin r" "\<bar>r - (l - ?c1)\<bar> \<le> 1 / 36028797018963968"
    by (rule f64_err_half)
  have gl: "2 powi (- 5) \<le> \<bar>l\<bar>" using l1 by simp
  obtain a :: int where "l = of_int a * 2 powi (- 5 - 23)"
    using f32_grid[OF l gl] by blast
  then have a: "l = of_int a / 268435456" by simp
  have gw: "2 powi (- 6) \<le> \<bar>w\<bar>" using w1 by simp
  obtain b :: int where "w = of_int b * 2 powi (- 6 - 23)"
    using f32_grid[OF w gw] by blast
  then have b: "w = of_int b / 536870912" by simp
  have d: "w - l = of_int (b - 2 * a) / 536870912" unfolding a b by simp
  have "r < w \<longleftrightarrow> l - 1 / 36 < w"
  proof
    assume "r < w"
    then have "- 14913081 / 536870912 < w - l" using r(2) by linarith
    then have "(of_int (- 14913081) :: rat) < of_int (b - 2 * a)" unfolding d by simp
    then have "(of_int (- 14913081 + 1) :: rat) \<le> of_int (b - 2 * a)" by (rule int_above)
    then have "- 14913080 / 536870912 \<le> w - l" unfolding d by simp
    then show "l - 1 / 36 < w" by linarith
  next
    assume "l - 1 / 36 < w"
    then have "- 14913081 / 536870912 < w - l" by linarith
    then have "(of_int (- 14913081) :: rat) < of_int (b - 2 * a)" unfolding d by simp
    then have "(of_int (- 14913081 + 1) :: rat) \<le> of_int (b - 2 * a)" by (rule int_above)
    then have "- 14913080 / 536870912 \<le> w - l" unfolding d by simp
    then show "r < w" using r(2) by linarith
  qed
  then show ?thesis using r(1) that by blast
qed

lemma badParams_finite:
  assumes l: "is_f32 l" and p: "is_f32 p" and w: "is_f32 w"
  shows "badParams (Fin 36) (Fin l) (Fin p) (Fin w) \<longleftrightarrow>
    (l < 2 / 36 \<or> 1 / 2 < l \<or> p < 0 \<or> l < p \<or> w < 1 / 36 \<or> l - 1 / 36 < w)"
proof (cases "l < 1 / 18 \<or> 1 / 2 < l \<or> w < 1 / 36")
  case True
  then show ?thesis
    using lambda_low[OF l] width_low[OF w]
    by (auto simp: badParams_def fgt_def f64_18th f64_36th)
next
  case False
  then have b: "1 / 18 \<le> l" "l \<le> 1 / 2" "1 / 36 \<le> w" by simp_all
  obtain r where r: "f64 (l - 2001599834386887 / 72057594037927936) = Fin r"
    "r < w \<longleftrightarrow> l - 1 / 36 < w"
    using width_high[OF l w b] by blast
  show ?thesis
    using lambda_low[OF l] width_low[OF w] False r
    by (auto simp: badParams_def fgt_def fsub_def f64_18th f64_36th)
qed

lemma minimal_triple:
  "\<not> badParams (Fin 36) (f32 (2 / 36)) (Fin 0) (f32 (1 / 36))"
proof -
  let ?l = "14913081 / 268435456 :: rat"
  let ?w = "14913081 / 536870912 :: rat"
  let ?c1 = "2001599834386887 / 72057594037927936 :: rat"
  have l: "f32 (2 / 36) = Fin ?l" using f32_18th by simp
  let ?d = "2001599864213049 / 72057594037927936 :: rat"
  have "\<bar>?d\<bar> < 1 / 2" by simp
  then obtain r where r: "f64 ?d = Fin r" "\<bar>r - ?d\<bar> \<le> 1 / 36028797018963968"
    by (rule f64_err_half)
  have "\<not> r < ?w" using r(2) by linarith
  then show ?thesis
    unfolding l f32_36th by (simp add: badParams_def fgt_def fsub_def f64_18th f64_36th r(1))
qed

section \<open>Facts about the constructor's loops\<close>

lemma append_models_Nil: "append_models s [] = s"
  by (simp add: append_models_def)

lemma append_models_append:
  "append_models (append_models s xs) ys = append_models s (xs @ ys)"
  by (simp add: append_models_def)

lemma fnbits_append_models: "fnbits (append_models s es) = fnbits s"
  by (simp add: append_models_def)

lemma iwidth_loop_models:
  "iwidth_loop ilambda lambda phase iwidth s =
     append_models s
       (map (\<lambda>iw. (setbits 0 lambda phase (fdiv f32 (f32 (of_nat iw)) (fnbits s)), lambda, phase,
                    fdiv f32 (f32 (of_nat iw)) (fnbits s)))
            [iwidth..<ilambda - 1])"
proof (induction ilambda lambda phase iwidth s rule: iwidth_loop.induct)
  case (1 ilambda lambda phase iwidth s)
  show ?case
  proof (cases "iwidth < ilambda - 1")
    case True
    let ?w = "fdiv f32 (f32 (of_nat iwidth)) (fnbits s)"
    let ?e = "(setbits 0 lambda phase ?w, lambda, phase, ?w)"
    have step: "s\<lparr>bitmodels := bitmodels s @ [setbits 0 lambda phase ?w], lvec := lvec s @ [lambda],
                p0vec := p0vec s @ [phase], fvec := fvec s @ [?w]\<rparr> = append_models s [?e]"
      by (simp add: append_models_def)
    let ?f = "\<lambda>iw. (setbits 0 lambda phase (fdiv f32 (f32 (of_nat iw)) (fnbits s)), lambda, phase,
                    fdiv f32 (f32 (of_nat iw)) (fnbits s))"
    have "iwidth_loop ilambda lambda phase iwidth s
        = iwidth_loop ilambda lambda phase (Suc iwidth) (append_models s [?e])"
      by (subst iwidth_loop.simps) (simp only: True if_True Let_def step)
    also have "\<dots> = append_models (append_models s [?e]) (map ?f [Suc iwidth..<ilambda - 1])"
      using "1.IH"[OF True refl refl] by (simp only: step fnbits_append_models)
    also have "\<dots> = append_models s (?e # map ?f [Suc iwidth..<ilambda - 1])"
      by (simp only: append_models_append append.simps)
    also have "?e # map ?f [Suc iwidth..<ilambda - 1] = map ?f [iwidth..<ilambda - 1]"
      by (simp only: upt_conv_Cons[OF True] list.map)
    finally show ?thesis .
  next
    case False
    then show ?thesis
      by (subst iwidth_loop.simps) (simp add: append_models_Nil)
  qed
qed

lemma iwidth_loop_model_at:
  "iwidth_loop ilambda (fdiv f32 (f32 (of_nat ilambda)) (fnbits s))
       (fdiv f32 (f32 (of_int iphase)) (fnbits s)) iwidth s =
     append_models s (map (model_at (fnbits s) ilambda iphase) [iwidth..<ilambda - 1])"
proof -
  have "model_at (fnbits s) ilambda iphase
      = (\<lambda>iw. (setbits 0 (fdiv f32 (f32 (of_nat ilambda)) (fnbits s))
                   (fdiv f32 (f32 (of_int iphase)) (fnbits s))
                   (fdiv f32 (f32 (of_nat iw)) (fnbits s)),
                  fdiv f32 (f32 (of_nat ilambda)) (fnbits s),
                  fdiv f32 (f32 (of_int iphase)) (fnbits s),
                  fdiv f32 (f32 (of_nat iw)) (fnbits s)))"
    by (rule ext) (simp add: model_at_def Let_def)
  then show ?thesis by (simp only: iwidth_loop_models)
qed

lemma iphase_loop_models:
  "iphase_loop ilambda (fdiv f32 (f32 (of_nat ilambda)) (fnbits s)) iphase s =
     append_models s
       (concat (map (\<lambda>ip. map (model_at (fnbits s) ilambda ip) [1..<ilambda - 1])
                    [iphase..int ilambda]))"
proof (induction ilambda "fdiv f32 (f32 (of_nat ilambda)) (fnbits s)" iphase s
    rule: iphase_loop.induct)
  case (1 ilambda iphase s)
  let ?l = "fdiv f32 (f32 (of_nat ilambda)) (fnbits s)"
  let ?g = "\<lambda>ip. map (model_at (fnbits s) ilambda ip) [1..<ilambda - 1]"
  show ?case
  proof (cases "iphase \<le> int ilambda")
    case True
    let ?s' = "append_models s (?g iphase)"
    have "iphase_loop ilambda ?l iphase s = iphase_loop ilambda ?l (iphase + 1) ?s'"
      by (subst iphase_loop.simps) (simp only: True if_True Let_def iwidth_loop_model_at)
    also have "\<dots> = append_models ?s' (concat (map ?g [iphase + 1..int ilambda]))"
      using "1.hyps"[OF True refl, unfolded iwidth_loop_model_at fnbits_append_models]
      by (simp only: fnbits_append_models)
    also have "\<dots> = append_models s (concat (map ?g (iphase # [iphase + 1..int ilambda])))"
      by (simp only: append_models_append list.map concat.simps)
    also have "iphase # [iphase + 1..int ilambda] = [iphase..int ilambda]"
      using True by (simp only: upto_rec1[of iphase "int ilambda"] if_True)
    finally show ?thesis .
  next
    case False
    then show ?thesis
      by (subst iphase_loop.simps) (simp add: append_models_Nil)
  qed
qed

lemma ilambda_loop_models:
  "ilambda_loop ilambda s =
     append_models s
       (concat (map (\<lambda>il. concat (map (\<lambda>ip. map (model_at (fnbits s) il ip) [1..<il - 1])
                                        [0..int il]))
                    [ilambda..<nbits div 2]))"
proof (induction ilambda s rule: ilambda_loop.induct)
  case (1 ilambda s)
  let ?g = "\<lambda>il. concat (map (\<lambda>ip. map (model_at (fnbits s) il ip) [1..<il - 1]) [0..int il])"
  show ?case
  proof (cases "ilambda < nbits div 2")
    case True
    let ?s' = "append_models s (?g ilambda)"
    have "ilambda_loop ilambda s = ilambda_loop (Suc ilambda) ?s'"
      by (subst ilambda_loop.simps) (simp only: True if_True Let_def iphase_loop_models)
    also have "\<dots> = append_models ?s' (concat (map ?g [Suc ilambda..<nbits div 2]))"
      using "1.IH"[OF True refl, unfolded iphase_loop_models]
      by (simp only: fnbits_append_models)
    also have "\<dots> = append_models s (concat (map ?g (ilambda # [Suc ilambda..<nbits div 2])))"
      by (simp only: append_models_append list.map concat.simps)
    also have "ilambda # [Suc ilambda..<nbits div 2] = [ilambda..<nbits div 2]"
      by (simp only: upt_conv_Cons[OF True])
    finally show ?thesis .
  next
    case False
    then show ?thesis
      by (subst ilambda_loop.simps) (simp add: append_models_Nil)
  qed
qed

lemma upto_0_int: "[0..int n] = map int [0..<Suc n]"
proof (induction n)
  case 0
  show ?case by (simp add: upto.simps)
next
  case (Suc n)
  have "[0..int (Suc n)] = [0..int n] @ [int n + 1]"
    using upto_rec2[of 0 "int n + 1"] by (simp add: add.commute)
  then show ?case using Suc by simp
qed

lemma models_spec_steps:
  "concat (map (\<lambda>il. concat (map (\<lambda>ip. map (model_at fn il ip) [1..<il - 1]) [0..int il]))
               [2..<nbits div 2])
   = map (\<lambda>(il, ip, iw). model_at fn il (int ip) iw) (spec_steps nbits)"
proof -
  have r: "[2..<nbits div 2] = [2..<Suc (nbits div 2 - 1)]" by (simp add: nbits_def)
  have "map (\<lambda>(il, ip, iw). model_at fn il (int ip) iw) (spec_steps nbits)
      = concat (map (\<lambda>il. concat (map (\<lambda>ip. map (model_at fn il (int ip)) [1..<Suc (il - 2)])
                                       [0..<Suc il]))
                 [2..<Suc (nbits div 2 - 1)])"
    by (simp add: spec_steps_def map_concat comp_def)
  also have "\<dots> = concat (map (\<lambda>il. concat (map (\<lambda>ip. map (model_at fn il ip) [1..<il - 1]) [0..int il]))
               [2..<Suc (nbits div 2 - 1)])"
  proof (rule arg_cong[where f = concat], rule map_cong[OF refl])
    fix il assume "il \<in> set [2..<Suc (nbits div 2 - 1)]"
    then have "2 \<le> il" by (simp del: upt_Suc)
    then have "Suc (il - 2) = il - 1" by simp
    then show "concat (map (\<lambda>ip. map (model_at fn il (int ip)) [1..<Suc (il - 2)]) [0..<Suc il])
      = concat (map (\<lambda>ip. map (model_at fn il ip) [1..<il - 1]) [0..int il])"
      by (simp add: upto_0_int comp_def)
  qed
  finally show ?thesis by (simp only: r)
qed

lemma new_models:
  "new_SquareWaveFitTest rnd =
     append_models
       \<lparr>hover = [], hmod = [], hlambda = [], hphase = [], hwidth = [], hdur = [],
        bitmodels = [], lvec = [], p0vec = [], fvec = [], rand = rnd,
        fnbits = f32 (of_nat nbits)\<rparr>
       (map (\<lambda>(il, ip, iw). model_at (f32 (of_nat nbits)) il (int ip) iw) (spec_steps nbits))"
  by (simp only: new_SquareWaveFitTest_def ilambda_loop_models models_spec_steps
      SquareWaveFitTest.simps)

lemma length_spec_steps_list:
  "length (spec_steps N) = sum_list (map (\<lambda>il. (il + 1) * (il - 2)) [2..<Suc (N div 2 - 1)])"
  by (simp add: spec_steps_def length_concat comp_def sum_list_triv del: upt_Suc)

lemma length_spec_steps:
  "length (spec_steps N) = (\<Sum>il = 2..N div 2 - 1. (il + 1) * (il - 2))"
  by (simp only: length_spec_steps_list interv_sum_list_conv_sum_set_nat set_upt
      atLeastLessThanSuc_atLeastAtMost)

lemma length_spec_steps_36: "length (spec_steps nbits) = 1600"
proof -
  have "length (spec_steps nbits) = sum_list (map (\<lambda>il. (il + 1) * (il - 2)) [2..<18])"
    by (simp add: length_spec_steps_list nbits_def del: upt_Suc)
  also have "\<dots> = 1600"
    by (simp add: upt_conv_Cons)
  finally show ?thesis .
qed

lemma spec_steps_bounds:
  assumes "(il, ip, iw) \<in> set (spec_steps N)"
  shows "2 \<le> il" "il \<le> N div 2 - 1" "ip \<le> il" "1 \<le> iw" "iw \<le> il - 2"
  using assms by (auto simp: spec_steps_def simp del: upt_Suc)

lemma step_value:
  assumes "n < 2 ^ 24"
  shows "fdiv f32 (f32 (of_nat n)) (f32 (of_nat nbits)) = f32 (of_nat n / of_nat nbits)"
  by (simp add: f32_of_nat[OF assms] f32_36 nbits_def)

lemma model_at_steps:
  assumes "il < 2 ^ 24" "ip < 2 ^ 24" "iw < 2 ^ 24"
  shows "model_at (f32 (of_nat nbits)) il (int ip) iw =
    (setbits 0 (f32 (of_nat il / of_nat nbits)) (f32 (of_nat ip / of_nat nbits))
       (f32 (of_nat iw / of_nat nbits)),
     f32 (of_nat il / of_nat nbits), f32 (of_nat ip / of_nat nbits),
     f32 (of_nat iw / of_nat nbits))"
  using step_value[OF assms(1)] step_value[OF assms(2)] step_value[OF assms(3)]
  by (simp add: model_at_def Let_def)

lemma steps_small:
  assumes "(il, ip, iw) \<in> set (spec_steps nbits)"
  shows "il < 2 ^ 24" "ip < 2 ^ 24" "iw < 2 ^ 24" "il \<le> 17"
proof -
  have "il \<le> 17" using spec_steps_bounds(2)[OF assms] by (simp add: nbits_def)
  then show "il < 2 ^ 24" "ip < 2 ^ 24" "iw < 2 ^ 24" "il \<le> 17"
    using spec_steps_bounds(3,5)[OF assms] by simp_all
qed

lemma new_fields:
  fixes rnd
  defines "s \<equiv> new_SquareWaveFitTest rnd"
  defines "g \<equiv> (\<lambda>(il, ip, iw). model_at (f32 (of_nat nbits)) il (int ip) iw)"
  shows "bitmodels s = map (\<lambda>e. fst (g e)) (spec_steps nbits)"
    and "lvec s = map (\<lambda>e. fst (snd (g e))) (spec_steps nbits)"
    and "p0vec s = map (\<lambda>e. fst (snd (snd (g e)))) (spec_steps nbits)"
    and "fvec s = map (\<lambda>e. snd (snd (snd (g e)))) (spec_steps nbits)"
    and "fnbits s = f32 (of_nat nbits)"
    and "rand s = rnd"
  unfolding s_def g_def new_models by (simp_all add: append_models_def comp_def)

lemma new_length:
  "length (bitmodels (new_SquareWaveFitTest rnd)) = 1600"
  "length (lvec (new_SquareWaveFitTest rnd)) = 1600"
  "length (p0vec (new_SquareWaveFitTest rnd)) = 1600"
  "length (fvec (new_SquareWaveFitTest rnd)) = 1600"
  by (simp_all add: new_fields length_spec_steps_36)

lemma models_consistent:
  fixes rnd
  defines "s \<equiv> new_SquareWaveFitTest rnd"
  assumes "k < length (bitmodels s)"
  shows "bitmodels s ! k = setbits 0 (lvec s ! k) (p0vec s ! k) (fvec s ! k)"
proof -
  have k: "k < length (spec_steps nbits)" using assms by (simp add: new_fields)
  show ?thesis
    unfolding s_def new_fields using k
    by (simp add: model_at_def Let_def split: prod.splits)
qed

lemma grid_valid:
  assumes "2 \<le> il" "il \<le> 17" "ip \<le> il" "1 \<le> iw" "iw \<le> il - 2"
  shows "\<not> badParams (Fin 36) (f32 (of_nat il / 36)) (f32 (of_nat ip / 36)) (f32 (of_nat iw / 36))"
proof -
  define ql :: rat where "ql = of_nat il / 36"
  define qp :: rat where "qp = of_nat ip / 36"
  define qw :: rat where "qw = of_nat iw / 36"
  have il: "(2::rat) \<le> of_nat il" "(of_nat il :: rat) \<le> 17"
    using assms(1,2) by (simp_all flip: of_nat_numeral only: of_nat_le_iff)
  have ip: "(of_nat ip :: rat) \<le> of_nat il" "(0::rat) \<le> of_nat ip"
    using assms(3) by simp_all
  have iw: "(1::rat) \<le> of_nat iw" "(of_nat iw :: rat) + 2 \<le> of_nat il"
  proof -
    show "(1::rat) \<le> of_nat iw" using assms(4) by simp
    have "iw + 2 \<le> il" using assms(1,5) by simp
    then have "(of_nat (iw + 2) :: rat) \<le> of_nat il" by (simp only: of_nat_le_iff)
    then show "(of_nat iw :: rat) + 2 \<le> of_nat il" by simp
  qed
  have "\<bar>ql\<bar> < 1 / 2" using il by (simp add: ql_def)
  then obtain tl where tl: "f32 ql = Fin tl" "\<bar>tl - ql\<bar> \<le> 1 / 67108864"
    by (rule f32_err_half)
  have "\<bar>qp\<bar> < 1 / 2" using il ip by (simp add: qp_def)
  then obtain tp where tp: "f32 qp = Fin tp" "\<bar>tp - qp\<bar> \<le> 1 / 67108864"
    by (rule f32_err_half)
  have "\<bar>qw\<bar> < 1 / 2" using il iw by (simp add: qw_def)
  then obtain tw where tw: "f32 qw = Fin tw" "\<bar>tw - qw\<bar> \<le> 1 / 67108864"
    by (rule f32_err_half)
  let ?c1 = "2001599834386887 / 72057594037927936 :: rat"
  let ?c2 = "2001599834386887 / 36028797018963968 :: rat"
  have d1: "\<not> tl < ?c2"
  proof (cases "il = 2")
    case True
    then have q: "ql = 1 / 18" by (simp add: ql_def)
    have "Fin tl = Fin (14913081 / 268435456)" by (metis tl(1) q f32_18th)
    then show ?thesis by simp
  next
    case False
    then have "3 \<le> il" using assms(1) by simp
    then have "(of_nat 3 :: rat) \<le> of_nat il" by (simp only: of_nat_le_iff)
    then have "3 / 36 \<le> ql" by (simp add: ql_def)
    then show ?thesis using tl(2) by linarith
  qed
  have d2: "\<not> 1 / 2 < tl"
  proof -
    have "ql \<le> 17 / 36" using il by (simp add: ql_def)
    then show ?thesis using tl(2) by linarith
  qed
  have d3: "\<not> tp < 0"
  proof (cases "ip = 0")
    case True
    then have "qp = 0" by (simp add: qp_def)
    then have "tp = 0" using tp(1) by (simp add: f32_def fround_def)
    then show ?thesis by simp
  next
    case False
    then have "1 \<le> ip" by simp
    then have "(of_nat 1 :: rat) \<le> of_nat ip" by (simp only: of_nat_le_iff)
    then have "1 / 36 \<le> qp" by (simp add: qp_def)
    then show ?thesis using tp(2) by linarith
  qed
  have d4: "\<not> tl < tp"
  proof (cases "ip = il")
    case True
    then have "qp = ql" by (simp add: qp_def ql_def)
    then have "tp = tl" using tp(1) tl(1) by simp
    then show ?thesis by simp
  next
    case False
    then have "ip + 1 \<le> il" using assms(3) by simp
    then have "(of_nat (ip + 1) :: rat) \<le> of_nat il" by (simp only: of_nat_le_iff)
    then have "qp + 1 / 36 \<le> ql" by (simp add: qp_def ql_def)
    then show ?thesis using tp(2) tl(2) by linarith
  qed
  have d5: "\<not> tw < ?c1"
  proof (cases "iw = 1")
    case True
    then have q: "qw = 1 / 36" by (simp add: qw_def)
    have "Fin tw = Fin (14913081 / 536870912)" by (metis tw(1) q f32_36th)
    then show ?thesis by simp
  next
    case False
    then have "2 \<le> iw" using assms(4) by simp
    then have "(of_nat 2 :: rat) \<le> of_nat iw" by (simp only: of_nat_le_iff)
    then have "2 / 36 \<le> qw" by (simp add: qw_def)
    then show ?thesis using tw(2) by linarith
  qed
  have ql_lo: "2 / 36 \<le> ql" and ql_hi: "ql \<le> 17 / 36" using il by (simp_all add: ql_def)
  have "\<bar>tl - ?c1\<bar> < 1 / 2" using ql_lo ql_hi tl(2) by linarith
  then obtain r where r: "f64 (tl - ?c1) = Fin r" "\<bar>r - (tl - ?c1)\<bar> \<le> 1 / 36028797018963968"
    by (rule f64_err_half)
  have d6: "\<not> r < tw"
  proof -
    have "qw + 2 / 36 \<le> ql" using iw(2) by (simp add: qw_def ql_def)
    then show ?thesis using tw(2) tl(2) r(2) by linarith
  qed
  show ?thesis
    using d1 d2 d3 d4 d5 d6
    by (simp add: badParams_def fgt_def fsub_def f64_18th f64_36th r(1)
        tl(1)[unfolded ql_def] tp(1)[unfolded qp_def] tw(1)[unfolded qw_def])
qed

section \<open>Facts about the encoding of the library's parameters\<close>


lemma f32_err_one:
  assumes "\<bar>x\<bar> < 1"
  obtains t where "f32 x = Fin t" and "\<bar>t - x\<bar> \<le> 1 / 33554432"
proof -
  have "\<bar>x\<bar> < 2 powi (- 1 + 1)" using assms by simp
  then obtain t where "fround 24 127 x = Fin t" "\<bar>t - x\<bar> \<le> 2 powi (- 1 - int 24)"
    by (rule fround_err[where p = 24 and emax = 127]) simp_all
  then show ?thesis using that by (simp add: f32_def)
qed

lemma f64_err_one:
  assumes "\<bar>x\<bar> < 1"
  obtains t where "f64 x = Fin t" and "\<bar>t - x\<bar> \<le> 1 / 18014398509481984"
proof -
  have "\<bar>x\<bar> < 2 powi (- 1 + 1)" using assms by simp
  then obtain t where "fround 53 1023 x = Fin t" "\<bar>t - x\<bar> \<le> 2 powi (- 1 - int 53)"
    by (rule fround_err[where p = 53 and emax = 1023]) simp_all
  then show ?thesis using that by (simp add: f64_def)
qed

lemma odd_mod_even:
  fixes D L :: int
  assumes "odd D" "even L" "0 < L"
  shows "1 \<le> D mod L" "D mod L \<le> L - 1" "odd (D mod L)"
proof -
  have e: "D mod L = D - L * (D div L)" by (simp add: minus_mult_div_eq_mod)
  have "odd (D - L * (D div L))" using assms(1,2) by simp
  then show o: "odd (D mod L)" unfolding e .
  have r: "0 \<le> D mod L" "D mod L < L" using assms(3) by simp_all
  have "D mod L \<noteq> 0" using o by (metis even_zero)
  then show "1 \<le> D mod L" using r(1) by linarith
  show "D mod L \<le> L - 1" using r(2) by linarith
qed

lemma div_bounds:
  fixes D L :: int
  assumes "- 71 \<le> D" "D \<le> 71" "1 \<le> L"
  shows "\<bar>D div L\<bar> \<le> 71"
proof (cases "0 \<le> D")
  case True
  have "D div L \<le> D div 1" using True assms(3) by (intro zdiv_mono2) simp_all
  moreover have "0 \<le> D div L" using True assms(3) by (simp add: pos_imp_zdiv_nonneg_iff)
  ultimately show ?thesis using assms(2) by simp
next
  case False
  have "D div 1 \<le> D div L" using False assms(3) by (intro zdiv_mono2_neg) simp_all
  moreover have "D div L < 0" using False assms(3) by (simp add: div_neg_pos_less0)
  ultimately show ?thesis using assms(1) by simp
qed

lemma grid_bit:
  assumes il: "3 \<le> il" "il \<le> 17" and ip: "ip \<le> il" and iw: "1 \<le> iw" "iw \<le> il - 2"
    and i: "i < 36"
  shows "squarewave (f32 (of_nat il / 36)) (f32 (of_nat ip / 36)) (f32 (of_nat iw / 36))
           (fcast f32 (f64 ((of_nat i + 1 / 2) / 36)))
         \<longleftrightarrow> (2 * int i + 1 - 2 * int ip) mod (2 * int il) < 2 * int iw"
proof -
  define I P Lm Wd :: rat where "I = of_nat i" and "P = of_nat ip" and "Lm = of_nat il"
    and "Wd = of_nat iw"
  have rI: "0 \<le> I" "I \<le> 35"
  proof -
    show "0 \<le> I" by (simp add: I_def)
    have "i \<le> 35" using i by simp
    then have "(of_nat i :: rat) \<le> of_nat 35" by (simp only: of_nat_le_iff)
    then show "I \<le> 35" by (simp add: I_def)
  qed
  have rL: "3 \<le> Lm" "Lm \<le> 17"
  proof -
    have "(of_nat 3 :: rat) \<le> of_nat il" "(of_nat il :: rat) \<le> of_nat 17"
      using il by (simp_all only: of_nat_le_iff)
    then show "3 \<le> Lm" "Lm \<le> 17" by (simp_all add: Lm_def)
  qed
  have rP: "0 \<le> P" "P \<le> Lm"
    using ip by (simp_all add: P_def Lm_def)
  have rW: "1 \<le> Wd" "Wd + 2 \<le> Lm"
  proof -
    show "1 \<le> Wd" using iw(1) by (simp add: Wd_def)
    have "iw + 2 \<le> il" using il(1) iw(2) by simp
    then have "(of_nat (iw + 2) :: rat) \<le> of_nat il" by (simp only: of_nat_le_iff)
    then show "Wd + 2 \<le> Lm" by (simp add: Wd_def Lm_def)
  qed
  define qx where "qx = (I + 1 / 2) / 36"
  define qp where "qp = P / 36"
  define ql where "ql = Lm / 36"
  define qw where "qw = Wd / 36"
  have qx: "72 * qx = 2 * I + 1" by (simp add: qx_def)
  have qp: "36 * qp = P" by (simp add: qp_def)
  have ql: "36 * ql = Lm" by (simp add: ql_def)
  have qw: "36 * qw = Wd" by (simp add: qw_def)
  have "\<bar>qx\<bar> < 1" using rI qx by linarith
  then obtain a where a: "f64 qx = Fin a" "\<bar>a - qx\<bar> \<le> 1 / 18014398509481984"
    by (rule f64_err_one)
  have "\<bar>a\<bar> < 1" using a(2) rI qx by linarith
  then obtain x where x: "f32 a = Fin x" "\<bar>x - a\<bar> \<le> 1 / 33554432"
    by (rule f32_err_one)
  have "\<bar>qp\<bar> < 1 / 2" using rP rL qp by linarith
  then obtain ph where ph: "f32 qp = Fin ph" "\<bar>ph - qp\<bar> \<le> 1 / 67108864"
    by (rule f32_err_half)
  have "\<bar>ql\<bar> < 1 / 2" using rL ql by linarith
  then obtain la where la: "f32 ql = Fin la" "\<bar>la - ql\<bar> \<le> 1 / 67108864"
    by (rule f32_err_half)
  have "\<bar>qw\<bar> < 1 / 2" using rW rL qw by linarith
  then obtain wd where wd: "f32 qw = Fin wd" "\<bar>wd - qw\<bar> \<le> 1 / 67108864"
    by (rule f32_err_half)
  have "\<bar>x - ph\<bar> < 1" using x(2) a(2) ph(2) rI rP rL qx qp by linarith
  then obtain d where d: "f32 (x - ph) = Fin d" "\<bar>d - (x - ph)\<bar> \<le> 1 / 33554432"
    by (rule f32_err_one)
  define D where "D = 2 * int i + 1 - 2 * int ip"
  define L where "L = 2 * int il"
  define n where "n = D div L"
  define R where "R = D mod L"
  have oddD: "odd D" by (simp add: D_def)
  have evenL: "even L" by (simp add: L_def)
  have Lpos: "0 < L" using il(1) by (simp add: L_def)
  have R: "1 \<le> R" "R \<le> L - 1" "odd R"
    unfolding R_def using odd_mod_even[OF oddD evenL Lpos] by simp_all
  have DR: "D = n * L + R" by (simp add: n_def R_def)
  have Db: "- 71 \<le> D" "D \<le> 71" using i ip il by (simp_all add: D_def)
  have nb: "\<bar>n\<bar> \<le> 71" unfolding n_def using Db Lpos by (intro div_bounds) simp_all
  have Drat: "(of_int D :: rat) = 2 * I + 1 - 2 * P" by (simp add: D_def I_def P_def)
  have Lrat: "(of_int L :: rat) = 2 * Lm" by (simp add: L_def Lm_def)
  have DRrat: "(of_int D :: rat) = of_int n * of_int L + of_int R"
    using DR by (metis of_int_add of_int_mult)
  have Rrat: "1 \<le> (of_int R :: rat)" "(of_int R :: rat) \<le> 2 * Lm - 1"
  proof -
    have "(of_int 1 :: rat) \<le> of_int R" "(of_int R :: rat) \<le> of_int (L - 1)"
      using R(1,2) by (simp_all only: of_int_le_iff)
    then show "1 \<le> (of_int R :: rat)" "(of_int R :: rat) \<le> 2 * Lm - 1"
      using Lrat by simp_all
  qed
  define qr :: rat where "qr = of_int R / 72"
  define qd :: rat where "qd = of_int D / 72"
  have qr: "72 * qr = of_int R" by (simp add: qr_def)
  have qd: "72 * qd = of_int D" by (simp add: qd_def)
  define T where "T = of_int n * (la - ql)"
  have Tb: "\<bar>T\<bar> \<le> 71 / 67108864"
  proof -
    have "\<bar>(of_int n :: rat)\<bar> \<le> 71"
    proof -
      have "(of_int \<bar>n\<bar> :: rat) \<le> of_int 71" using nb by (simp only: of_int_le_iff)
      then show ?thesis by simp
    qed
    then have "\<bar>of_int n :: rat\<bar> * \<bar>la - ql\<bar> \<le> 71 * (1 / 67108864)"
      using la(2) by (intro mult_mono) simp_all
    then show ?thesis by (simp add: T_def abs_mult)
  qed
  have nla: "of_int n * la = qd - qr + T"
  proof -
    have "of_int n * la = of_int n * ql + T" by (simp add: T_def algebra_simps)
    also have "of_int n * ql = (of_int n * of_int L) / 72" by (simp add: Lrat ql_def)
    also have "of_int n * of_int L = (of_int D :: rat) - of_int R" using DRrat by simp
    finally show ?thesis by (simp add: qd_def qr_def diff_divide_distrib)
  qed
  define v0 where "v0 = d - of_int n * la"
  have v0: "\<bar>v0 - qr\<bar> \<le> 1 / 262144"
    unfolding v0_def nla using d(2) x(2) a(2) ph(2) Tb Drat qd qx qp by linarith
  have lapos: "0 < la" using la(2) rL ql by linarith
  have v0pos: "0 < v0" "v0 < la" using v0 Rrat la(2) qr ql by linarith+
  have q: "of_int n < d / la" "d / la < of_int n + 1"
  proof -
    have "of_int n * la < d" using v0pos(1) by (simp add: v0_def)
    then show "of_int n < d / la" using lapos by (simp add: pos_less_divide_eq)
    have "d < (of_int n + 1) * la" using v0pos(2) by (simp add: v0_def algebra_simps)
    then show "d / la < of_int n + 1" using lapos by (simp add: pos_divide_less_eq)
  qed
  have fl: "\<lfloor>d / la\<rfloor> = n" using q by (intro floor_unique) simp_all
  have ce: "\<lceil>d / la\<rceil> = n + 1" using q by (intro ceiling_unique) simp_all
  define W where "W = 2 * int iw"
  have Wrat: "(of_int W :: rat) = 2 * Wd" by (simp add: W_def Wd_def)
  have cmp: "(0 \<le> u \<and> u < wd) \<longleftrightarrow> R < W" if u: "\<bar>u - qr\<bar> \<le> 1 / 131072" for u
  proof (cases "R < W")
    case True
    then have "R \<le> W - 1" by simp
    then have "(of_int R :: rat) \<le> of_int (W - 1)" by (simp only: of_int_le_iff)
    then have "(of_int R :: rat) \<le> 2 * Wd - 1" using Wrat by simp
    then have "0 \<le> u \<and> u < wd" using u Rrat(1) wd(2) qr qw by linarith
    then show ?thesis using True by simp
  next
    case False
    have "even W" by (simp add: W_def)
    then have "R \<noteq> W" using R(3) by auto
    then have "W + 1 \<le> R" using False by simp
    then have "(of_int (W + 1) :: rat) \<le> of_int R" by (simp only: of_int_le_iff)
    then have "2 * Wd + 1 \<le> (of_int R :: rat)" using Wrat by simp
    then have "\<not> u < wd" using u wd(2) qr qw by linarith
    then show ?thesis using False by simp
  qed
  have D0: "D \<noteq> 0" using oddD by (metis even_zero)
  have dD: "\<bar>d - qd\<bar> \<le> 1 / 4194304"
    using d(2) x(2) a(2) ph(2) Drat qd qx qp by linarith
  have s1: "fsub f32 (Fin x) (Fin ph) = Fin d" by (simp add: fsub_def d(1))
  have sq: "squarewave (Fin la) (Fin ph) (Fin wd) (Fin x) \<longleftrightarrow> R < W"
  proof (cases "0 < D")
    case True
    then have "1 \<le> D" by simp
    then have "(of_int 1 :: rat) \<le> of_int D" by (simp only: of_int_le_iff)
    then have "(1 :: rat) \<le> of_int D" by simp
    then have "0 < d" using dD qd by linarith
    then have "0 \<le> d / la" using lapos by simp
    then have tr: "trunc_rat (d / la) = n" by (simp add: trunc_rat_def fl)
    have fm: "fmod (Fin d) (Fin la) = Fin v0"
      using lapos by (simp add: tr v0_def)
    have "\<bar>v0 - qr\<bar> \<le> 1 / 131072" using v0 by linarith
    then have c: "(0 \<le> v0 \<and> v0 < wd) \<longleftrightarrow> R < W" by (rule cmp)
    have "squarewave (Fin la) (Fin ph) (Fin wd) (Fin x) \<longleftrightarrow>
        (let val = Fin v0; val = (if flt val (Fin 0) then fadd f32 val (Fin la) else val)
         in fge val (Fin 0) \<and> flt val (Fin wd))"
      by (simp only: squarewave_def s1 fm)
    also have "\<dots> \<longleftrightarrow> (0 \<le> v0 \<and> v0 < wd)"
      using v0pos(1) by (simp add: fge_def Let_def)
    finally show ?thesis using c by simp
  next
    case False
    then have "D \<le> - 1" using D0 by simp
    then have "(of_int D :: rat) \<le> of_int (- 1)" by (simp only: of_int_le_iff)
    then have "(of_int D :: rat) \<le> - 1" by simp
    then have "d < 0" using dD qd by linarith
    then have "d / la < 0" using lapos by (simp add: divide_neg_pos)
    then have tr: "trunc_rat (d / la) = n + 1" by (simp add: trunc_rat_def ce)
    have fm: "fmod (Fin d) (Fin la) = Fin (v0 - la)"
      using lapos by (simp add: tr v0_def algebra_simps)
    have neg: "v0 - la < 0" using v0pos(2) by simp
    have "\<bar>v0\<bar> < 1 / 2" using v0 Rrat rL qr by linarith
    then obtain v where v: "f32 v0 = Fin v" "\<bar>v - v0\<bar> \<le> 1 / 67108864"
      by (rule f32_err_half)
    have "\<bar>v - qr\<bar> \<le> 1 / 131072" using v0 v(2) by linarith
    then have c: "(0 \<le> v \<and> v < wd) \<longleftrightarrow> R < W" by (rule cmp)
    have "squarewave (Fin la) (Fin ph) (Fin wd) (Fin x) \<longleftrightarrow>
        (let val = Fin (v0 - la); val = (if flt val (Fin 0) then fadd f32 val (Fin la) else val)
         in fge val (Fin 0) \<and> flt val (Fin wd))"
      by (simp only: squarewave_def s1 fm)
    also have "\<dots> \<longleftrightarrow> (0 \<le> v \<and> v < wd)"
      using neg by (simp add: fge_def Let_def v(1))
    finally show ?thesis using c by simp
  qed
  have "fcast f32 (f64 ((of_nat i + 1 / 2) / 36)) = Fin x"
    using a(1) x(1) by (simp add: qx_def I_def)
  then show ?thesis
    using sq la(1) ph(1) wd(1)
    by (simp only: ql_def qp_def qw_def Lm_def P_def Wd_def R_def W_def D_def L_def)
qed

lemma exact_bit_grid:
  assumes il: "1 \<le> il"
  shows "exact_bit (of_nat il / 36) (of_nat ip / 36) (of_nat iw / 36) 36 i
         \<longleftrightarrow> (2 * int i + 1 - 2 * int ip) mod (2 * int il) < 2 * int iw"
proof -
  define D where "D = 2 * int i + 1 - 2 * int ip"
  define L where "L = 2 * int il"
  define W where "W = 2 * int iw"
  define n where "n = D div L"
  define R where "R = D mod L"
  have oddD: "odd D" by (simp add: D_def)
  have evenL: "even L" by (simp add: L_def)
  have Lpos: "0 < L" using il by (simp add: L_def)
  have R: "1 \<le> R" "R \<le> L - 1"
    unfolding R_def using odd_mod_even[OF oddD evenL Lpos] by simp_all
  have DR: "D = n * L + R" by (simp add: n_def R_def)
  define qd :: rat where "qd = of_int D / 72"
  define ql :: rat where "ql = of_int L / 72"
  define qr :: rat where "qr = of_int R / 72"
  define qw :: rat where "qw = of_int W / 72"
  have xq: "(of_nat i + 1 / 2) / of_nat 36 - of_nat ip / 36 = qd"
    by (simp add: qd_def D_def field_simps)
  have lq: "(of_nat il / 36 :: rat) = ql" by (simp add: ql_def L_def)
  have wq: "(of_nat iw / 36 :: rat) = qw" by (simp add: qw_def W_def)
  have qlpos: "0 < ql" using Lpos by (simp add: ql_def)
  have nl: "of_int n * ql = qd - qr"
  proof -
    have "(of_int D :: rat) = of_int n * of_int L + of_int R"
      using DR by (metis of_int_add of_int_mult)
    then show ?thesis by (simp add: qd_def ql_def qr_def field_simps)
  qed
  have qr: "0 < qr" "qr < ql"
  proof -
    have "(of_int 1 :: rat) \<le> of_int R" "(of_int R :: rat) \<le> of_int (L - 1)"
      using R by (simp_all only: of_int_le_iff)
    then show "0 < qr" "qr < ql" by (simp_all add: qr_def ql_def)
  qed
  have q: "of_int n < qd / ql" "qd / ql < of_int n + 1"
  proof -
    have "of_int n * ql < qd" using nl qr(1) by simp
    then show "of_int n < qd / ql" using qlpos by (simp add: pos_less_divide_eq)
    have "qd < (of_int n + 1) * ql" using nl qr(2) by (simp add: algebra_simps)
    then show "qd / ql < of_int n + 1" using qlpos by (simp add: pos_divide_less_eq)
  qed
  have fl: "\<lfloor>qd / ql\<rfloor> = n" using q by (intro floor_unique) simp_all
  have ce: "\<lceil>qd / ql\<rceil> = n + 1" using q by (intro ceiling_unique) simp_all
  have cmp: "qr < qw \<longleftrightarrow> R < W"
  proof -
    have "(of_int R :: rat) < of_int W \<longleftrightarrow> R < W" by (simp only: of_int_less_iff)
    then show ?thesis by (simp add: qr_def qw_def)
  qed
  have D0: "D \<noteq> 0" using oddD by (metis even_zero)
  have "exact_bit ql (of_nat ip / 36) qw 36 i \<longleftrightarrow> R < W"
  proof (cases "0 < D")
    case True
    then have "0 \<le> qd / ql" using qlpos by (simp add: qd_def)
    then have tr: "trunc_rat (qd / ql) = n" by (simp add: trunc_rat_def fl)
    have "exact_bit ql (of_nat ip / 36) qw 36 i \<longleftrightarrow>
        (let val = qd - of_int n * ql; val' = (if val < 0 then val + ql else val)
         in 0 \<le> val' \<and> val' < qw)"
      by (simp only: exact_bit_def xq tr Let_def)
    also have "\<dots> \<longleftrightarrow> qr < qw" using qr(1) by (simp add: nl Let_def)
    finally show ?thesis using cmp by simp
  next
    case False
    then have "D < 0" using D0 by simp
    then have "qd / ql < 0" using qlpos by (simp add: qd_def divide_neg_pos)
    then have tr: "trunc_rat (qd / ql) = n + 1" by (simp add: trunc_rat_def ce)
    have "exact_bit ql (of_nat ip / 36) qw 36 i \<longleftrightarrow>
        (let val = qd - of_int (n + 1) * ql; val' = (if val < 0 then val + ql else val)
         in 0 \<le> val' \<and> val' < qw)"
      by (simp only: exact_bit_def xq tr Let_def)
    also have "qd - of_int (n + 1) * ql = qr - ql" using nl by (simp add: algebra_simps)
    also have "(let val = qr - ql; val' = (if val < 0 then val + ql else val)
         in 0 \<le> val' \<and> val' < qw) \<longleftrightarrow> qr < qw" using qr by (simp add: Let_def)
    finally show ?thesis using cmp by simp
  qed
  then show ?thesis
    unfolding lq wq R_def W_def D_def L_def .
qed

lemma grid_exact:
  assumes "(il, ip, iw) \<in> set (spec_steps nbits)" and "i < nbits"
  shows "bset_test (setbits bits (f32 (of_nat il / of_nat nbits)) (f32 (of_nat ip / of_nat nbits))
             (f32 (of_nat iw / of_nat nbits))) i
         \<longleftrightarrow> exact_bit (of_nat il / of_nat nbits) (of_nat ip / of_nat nbits)
               (of_nat iw / of_nat nbits) nbits i"
proof -
  note b = spec_steps_bounds[OF assms(1)]
  have il: "3 \<le> il" "il \<le> 17" "1 \<le> il" using b(4,5) steps_small(4)[OF assms(1)] by simp_all
  have i: "i < 36" using assms(2) by (simp add: nbits_def)
  have n: "(of_nat nbits :: rat) = 36" by (simp add: nbits_def)
  have "bset_test (setbits bits (f32 (of_nat il / of_nat nbits)) (f32 (of_nat ip / of_nat nbits))
             (f32 (of_nat iw / of_nat nbits))) i
      \<longleftrightarrow> squarewave (f32 (of_nat il / of_nat nbits)) (f32 (of_nat ip / of_nat nbits))
             (f32 (of_nat iw / of_nat nbits)) (fcast f32 (f64 ((of_nat i + 1 / 2) / of_nat nbits)))"
    using assms(2) by (simp only: bset_test_def setbits_def setbits_loop_bit sample_center) simp
  also have "\<dots> \<longleftrightarrow> (2 * int i + 1 - 2 * int ip) mod (2 * int il) < 2 * int iw"
    unfolding n by (rule grid_bit[OF il(1,2) b(3,4,5) i])
  also have "\<dots> \<longleftrightarrow> exact_bit (of_nat il / 36) (of_nat ip / 36) (of_nat iw / 36) 36 i"
    by (rule exact_bit_grid[OF il(3), symmetric])
  finally show ?thesis unfolding n by (simp only: nbits_def)
qed

section \<open>Facts about the trial loop\<close>

lemma trials_run:
  assumes "bitmodels s \<noteq> []" and "length (bitmodels s) \<le> 2 ^ 32"
    and "length (lvec s) = length (bitmodels s)" and "length (p0vec s) = length (bitmodels s)"
    and "length (fvec s) = length (bitmodels s)"
  shows "\<exists>s'. trials itrial ntrials model rbits eff pur clock s = Inr s' \<and>
           bitmodels s' = bitmodels s \<and> lvec s' = lvec s \<and> p0vec s' = p0vec s \<and>
           fvec s' = fvec s \<and> fnbits s' = fnbits s \<and>
           rand s' = sdrop ((ntrials - itrial) * nbits) (rand s) \<and>
           length (hover s') = length (hover s) + (ntrials - itrial) \<and>
           length (hmod s') = length (hmod s) + (ntrials - itrial) \<and>
           length (hdur s') = length (hdur s) + (ntrials - itrial)"
  using assms
proof (induction itrial ntrials model rbits eff pur clock s rule: trials.induct)
  case (1 itrial ntrials model rbits eff pur clock s)
  show ?case
  proof (cases "itrial < ntrials")
    case False
    then show ?thesis by (subst trials.simps) simp
  next
    case True
    obtain rbits' rnd' where sr: "setRandom model rbits eff pur (rand s) = (rbits', rnd')"
      by (cases "setRandom model rbits eff pur (rand s)")
    have rnd': "rnd' = sdrop nbits (rand s)"
      using sr setRandom_loop_rand[of 0 model rbits eff pur "rand s"] by (simp add: setRandom_def)
    obtain imod bover where bo: "bestOverlap (bitmodels s) rbits' = (imod, bover)"
      by (cases "bestOverlap (bitmodels s) rbits'")
    have im: "imod < length (bitmodels s)"
      using bestOverlap_spec[OF "1.prems"(1,2), of rbits'] bo by (metis fst_conv)
    let ?s1 = "s\<lparr>rand := rnd',
                 hdur := hdur s @ [Fin (of_nat (clock itrial))],
                 hover := hover s @ [Fin (of_nat bover)],
                 hmod := hmod s @ [Fin (of_nat imod)],
                 hlambda := hlambda s @ [lvec s ! imod],
                 hphase := hphase s @ [p0vec s ! imod],
                 hwidth := hwidth s @ [fvec s ! imod]\<rparr>"
    have ok: "imod < length (lvec s) \<and> imod < length (p0vec s) \<and> imod < length (fvec s)"
      using im "1.prems" by simp
    have step: "trials itrial ntrials model rbits eff pur clock s
        = trials (Suc itrial) ntrials model rbits' eff pur clock ?s1"
      by (subst trials.simps) (simp add: True sr bo ok)
    have "\<exists>s'. trials (Suc itrial) ntrials model rbits' eff pur clock ?s1 = Inr s' \<and>
           bitmodels s' = bitmodels ?s1 \<and> lvec s' = lvec ?s1 \<and> p0vec s' = p0vec ?s1 \<and>
           fvec s' = fvec ?s1 \<and> fnbits s' = fnbits ?s1 \<and>
           rand s' = sdrop ((ntrials - Suc itrial) * nbits) (rand ?s1) \<and>
           length (hover s') = length (hover ?s1) + (ntrials - Suc itrial) \<and>
           length (hmod s') = length (hmod ?s1) + (ntrials - Suc itrial) \<and>
           length (hdur s') = length (hdur ?s1) + (ntrials - Suc itrial)"
      using "1.prems" by (intro "1.IH"[OF True sr[symmetric] bo[symmetric] ok]) simp_all
    then obtain s' where s': "trials (Suc itrial) ntrials model rbits' eff pur clock ?s1 = Inr s'"
        "bitmodels s' = bitmodels s" "lvec s' = lvec s" "p0vec s' = p0vec s"
        "fvec s' = fvec s" "fnbits s' = fnbits s"
        "rand s' = sdrop ((ntrials - Suc itrial) * nbits) rnd'"
        "length (hover s') = Suc (length (hover s)) + (ntrials - Suc itrial)"
        "length (hmod s') = Suc (length (hmod s)) + (ntrials - Suc itrial)"
        "length (hdur s') = Suc (length (hdur s)) + (ntrials - Suc itrial)"
      by auto
    have d: "ntrials - itrial = Suc (ntrials - Suc itrial)" using True by simp
    have "rand s' = sdrop ((ntrials - itrial) * nbits) (rand s)"
      unfolding s'(7) rnd' d by (simp add: sdrop_add add.commute)
    then show ?thesis
      unfolding step using s' d by simp
  qed
qed

section \<open>The claims\<close>

subsection \<open>The search on an empty library\<close>

text \<open>
  Claim C1 says that \<^verbatim>\<open>bestOverlap\<close>, invoked with an empty template library, fails
  with an invalid-state condition rather than returning an index.  The function has no
  failing exit: on the empty library the loop body never runs, and the function returns
  the initial \<^verbatim>\<open>retval\<close>, 0, with \<^verbatim>\<open>bover\<close> left at \<^verbatim>\<open>nbits\<close>.  At the
  observation with no bit set:
\<close>

theorem bestOverlap_empty_counterexample: "bestOverlap [] 0 = (0, 36)"
  by (simp add: bestOverlap_def bestOverlap_loop.simps to_unsigned_def nbits_def)

text \<open>
  C1, as the code has it: for every observation, \<^verbatim>\<open>bestOverlap\<close> on the empty library
  returns the index 0 and the distance \<^verbatim>\<open>nbits\<close> (36); nothing signals that no
  template was there.
\<close>

theorem bestOverlap_empty: "bestOverlap [] obs = (0, nbits)"
  by (simp add: bestOverlap_def bestOverlap_loop.simps to_unsigned_def nbits_def)

theorem bestOverlap_empty_witness: "bestOverlap [] 5 = (0, nbits)"
  by (rule bestOverlap_empty)

subsection \<open>The noise at its extremes\<close>

text \<open>
  Claim C2 says that for every model and every sequence of draws in \<open>[0, 1)\<close>,
  \<^verbatim>\<open>setRandom\<close> with \<^verbatim>\<open>eff\<close> and \<^verbatim>\<open>pur\<close> both 1 returns the model, and with both
  0 returns the complement of the model.  The second half fails at a draw that is exactly
  0: a model bit that is not set becomes \<^verbatim>\<open>rval > pur\<close>, which is \<open>0 > 0\<close>, and
  stays unset.  With the model that has no bit set and every draw 0:
\<close>

theorem setRandom_zero_draw_counterexample:
  "fle (Fin 0) (Fin 0) \<and> flt (Fin 0) (Fin 1) \<and>
   fst (setRandom 0 0 (Fin 0) (Fin 0) (sconst (Fin 0))) \<noteq> NOT 0"
proof -
  have "\<not> bit (fst (setRandom 0 0 (Fin 0) (Fin 0) (sconst (Fin 0)))) 0"
    by (simp add: setRandom_def setRandom_loop_bit fgt_def nbits_def)
  moreover have "bit (NOT (0 :: bset)) 0"
    by (simp add: bit_not_bset nbits_def)
  ultimately have "fst (setRandom 0 0 (Fin 0) (Fin 0) (sconst (Fin 0))) \<noteq> NOT 0"
    by metis
  then show ?thesis by simp
qed

text \<open>
  C2, as the code has it: for every model and every prior content of \<^verbatim>\<open>rbits\<close>, if
  the \<^verbatim>\<open>nbits\<close> draws lie in \<open>[0, 1)\<close> then \<^verbatim>\<open>setRandom\<close> with \<^verbatim>\<open>eff\<close> and
  \<^verbatim>\<open>pur\<close> both 1 returns the model bit for bit; if they lie in the open interval
  \<open>(0, 1)\<close>, as the draws of \<^verbatim>\<open>TRandom3::Uniform\<close> do, then with \<^verbatim>\<open>eff\<close> and
  \<^verbatim>\<open>pur\<close> both 0 it returns the bitwise complement of the model.
\<close>

theorem setRandom_saturation:
  "((\<forall>k<nbits. fle (Fin 0) (rnd !! k) \<and> flt (rnd !! k) (Fin 1)) \<longrightarrow>
      fst (setRandom model rbits (Fin 1) (Fin 1) rnd) = model) \<and>
   ((\<forall>k<nbits. flt (Fin 0) (rnd !! k) \<and> flt (rnd !! k) (Fin 1)) \<longrightarrow>
      fst (setRandom model rbits (Fin 0) (Fin 0) rnd) = NOT model)"
proof (intro conjI impI)
  assume r: "\<forall>k<nbits. fle (Fin 0) (rnd !! k) \<and> flt (rnd !! k) (Fin 1)"
  show "fst (setRandom model rbits (Fin 1) (Fin 1) rnd) = model"
  proof (rule bit_eqI)
    fix i
    show "bit (fst (setRandom model rbits (Fin 1) (Fin 1) rnd)) i = bit model i"
    proof (cases "i < nbits")
      case True
      then have a: "flt (rnd !! i) (Fin 1)" using r by blast
      then have b: "\<not> flt (Fin 1) (rnd !! i)" by (cases "rnd !! i") simp_all
      show ?thesis using True a b by (simp add: setRandom_def setRandom_loop_bit fgt_def)
    next
      case False
      then have "\<not> bit model i" "\<not> bit rbits i" using bset_bit_less by blast+
      then show ?thesis using False by (simp add: setRandom_def setRandom_loop_bit)
    qed
  qed
next
  assume r: "\<forall>k<nbits. flt (Fin 0) (rnd !! k) \<and> flt (rnd !! k) (Fin 1)"
  show "fst (setRandom model rbits (Fin 0) (Fin 0) rnd) = NOT model"
  proof (rule bit_eqI)
    fix i
    show "bit (fst (setRandom model rbits (Fin 0) (Fin 0) rnd)) i = bit (NOT model) i"
    proof (cases "i < nbits")
      case True
      then have a: "flt (Fin 0) (rnd !! i)" using r by blast
      then have b: "\<not> flt (rnd !! i) (Fin 0)" by (cases "rnd !! i") simp_all
      show ?thesis using True a b
        by (simp add: setRandom_def setRandom_loop_bit fgt_def bit_not_bset)
    next
      case False
      then have "\<not> bit rbits i" using bset_bit_less by blast
      then show ?thesis using False by (simp add: setRandom_def setRandom_loop_bit bit_not_bset)
    qed
  qed
qed

theorem setRandom_saturation_witness:
  "fst (setRandom 5 0 (Fin 1) (Fin 1) (sconst (Fin (1 / 2)))) = 5 \<and>
   fst (setRandom 5 0 (Fin 0) (Fin 0) (sconst (Fin (1 / 2)))) = NOT 5"
  using setRandom_saturation[of "sconst (Fin (1 / 2))" 5 0] by simp

subsection \<open>The search on a library with templates\<close>

text \<open>
  Claim C3: for every observation and every library that is not empty (and whose
  indices fit the \<^verbatim>\<open>unsigned\<close> result, as those of every library the constructor
  builds do), \<^verbatim>\<open>bestOverlap\<close> returns in \<^verbatim>\<open>bover\<close> the minimum over all templates
  of the Hamming distance, the number of bits set in the exclusive or of observation and
  template, and as index the smallest index of a template at that minimum distance: the
  first occurrence wins a tie.
\<close>

theorem bestOverlap_min_first:
  assumes "lib \<noteq> []" and "length lib \<le> 2 ^ 32"
  shows "snd (bestOverlap lib obs) = Min ((\<lambda>m. bset_count (m XOR obs)) ` set lib) \<and>
         fst (bestOverlap lib obs) =
           (LEAST i. i < length lib \<and>
              bset_count (lib ! i XOR obs) = Min ((\<lambda>m. bset_count (m XOR obs)) ` set lib))"
proof -
  let ?d = "\<lambda>m. bset_count (m XOR obs)"
  obtain r b where rb: "bestOverlap lib obs = (r, b)" "r < length lib"
    "b = ?d (lib ! r)" "\<forall>j<length lib. b \<le> ?d (lib ! j)" "\<forall>j<r. b < ?d (lib ! j)"
    using bestOverlap_spec[OF assms, of obs] by blast
  have m: "Min (?d ` set lib) = b"
  proof (rule Min_eqI)
    show "finite (?d ` set lib)" by simp
    show "b \<in> ?d ` set lib" using rb(2,3) by (auto intro: nth_mem)
    fix y assume "y \<in> ?d ` set lib"
    then show "b \<le> y" using rb(4) by (auto simp: in_set_conv_nth)
  qed
  have l: "(LEAST i. i < length lib \<and> ?d (lib ! i) = b) = r"
  proof (rule Least_equality)
    show "r < length lib \<and> ?d (lib ! r) = b" using rb by simp
    fix y assume "y < length lib \<and> ?d (lib ! y) = b"
    then show "r \<le> y" using rb(5) by (cases "y < r") auto
  qed
  show ?thesis by (simp only: m l rb(1) fst_conv snd_conv)
qed

theorem bestOverlap_min_first_witness:
  "[5, 3, 3 :: bset] \<noteq> [] \<and> length [5, 3, 3 :: bset] \<le> 2 ^ 32 \<and> bestOverlap [5, 3, 3] 3 = (1, 0)"
proof -
  have h1: "[5, 3, 3 :: bset] \<noteq> []" by simp
  have h2: "length [5, 3, 3 :: bset] \<le> 2 ^ 32" by simp
  note t = bestOverlap_min_first[OF h1 h2, of 3]
  have x0: "(3::bset) XOR 3 = 0" by simp
  have x1: "(5::bset) XOR 3 = 6" by simp
  have c6: "bset_count 6 \<noteq> 0" by (simp add: bset_count_0_iff)
  have c0: "bset_count 0 = 0" by (simp add: bset_count_0_iff)
  have m: "Min ((\<lambda>m. bset_count (m XOR 3)) ` set [5, 3, 3 :: bset]) = 0"
    by (simp add: x0 x1 c0)
  have l: "(LEAST i. i < length [5, 3, 3 :: bset] \<and> bset_count ([5, 3, 3] ! i XOR 3) = 0) = 1"
  proof (rule Least_equality)
    show "1 < length [5, 3, 3 :: bset] \<and> bset_count ([5, 3, 3] ! 1 XOR 3) = 0"
      by (simp add: x0 c0)
    fix y assume a: "y < length [5, 3, 3 :: bset] \<and> bset_count ([5, 3, 3] ! y XOR 3) = 0"
    show "1 \<le> y"
    proof (cases "y = 0")
      case True
      then show ?thesis using a c6 by (simp add: x1)
    next
      case False
      then show ?thesis by simp
    qed
  qed
  have "bestOverlap [5, 3, 3] 3 = (1, 0)"
    using t unfolding m l by (simp add: prod_eq_iff)
  then show ?thesis using h1 h2 by blast
qed

subsection \<open>The enumeration of the library\<close>

text \<open>
  Claim C4: the constructor enumerates wavelength steps from 2 through
  \<open>nbits / 2 - 1\<close> in its outer loop, phase steps from 0 through the wavelength step in
  the middle one and width steps from 1 through the wavelength step less 2 in the inner
  one, in that nested order (\<open>spec_steps\<close>); the four vectors hold, entry by entry,
  the bits and the parameters of these steps, each parameter the \<^verbatim>\<open>float\<close> quotient of
  its step by \<^verbatim>\<open>nbits\<close>.  The library has as many entries as the sum over the
  wavelength steps of \<open>(il + 1) * (il - 2)\<close>, for \<^verbatim>\<open>nbits\<close> 36 the sum from 2 to
  17, which is 1600.
\<close>

theorem constructor_enumeration:
  "bitmodels (new_SquareWaveFitTest rnd) =
     map (\<lambda>(il, ip, iw). setbits 0 (f32 (of_nat il / of_nat nbits)) (f32 (of_nat ip / of_nat nbits))
                            (f32 (of_nat iw / of_nat nbits))) (spec_steps nbits) \<and>
   lvec (new_SquareWaveFitTest rnd) =
     map (\<lambda>(il, ip, iw). f32 (of_nat il / of_nat nbits)) (spec_steps nbits) \<and>
   p0vec (new_SquareWaveFitTest rnd) =
     map (\<lambda>(il, ip, iw). f32 (of_nat ip / of_nat nbits)) (spec_steps nbits) \<and>
   fvec (new_SquareWaveFitTest rnd) =
     map (\<lambda>(il, ip, iw). f32 (of_nat iw / of_nat nbits)) (spec_steps nbits) \<and>
   length (bitmodels (new_SquareWaveFitTest rnd)) = (\<Sum>il = 2..nbits div 2 - 1. (il + 1) * (il - 2)) \<and>
   nbits div 2 - 1 = 17 \<and> (\<Sum>il = 2..17. (il + 1) * (il - 2)) = (1600 :: nat)"
proof -
  have g: "model_at (f32 (of_nat nbits)) il (int ip) iw =
    (setbits 0 (f32 (of_nat il / of_nat nbits)) (f32 (of_nat ip / of_nat nbits))
       (f32 (of_nat iw / of_nat nbits)),
     f32 (of_nat il / of_nat nbits), f32 (of_nat ip / of_nat nbits),
     f32 (of_nat iw / of_nat nbits))" if "(il, ip, iw) \<in> set (spec_steps nbits)" for il ip iw
    using steps_small[OF that] by (intro model_at_steps)
  have 1: "bitmodels (new_SquareWaveFitTest rnd) =
     map (\<lambda>(il, ip, iw). setbits 0 (f32 (of_nat il / of_nat nbits)) (f32 (of_nat ip / of_nat nbits))
                            (f32 (of_nat iw / of_nat nbits))) (spec_steps nbits)"
    unfolding new_fields by (rule map_cong[OF refl]) (auto simp: g)
  have 2: "lvec (new_SquareWaveFitTest rnd) =
     map (\<lambda>(il, ip, iw). f32 (of_nat il / of_nat nbits)) (spec_steps nbits)"
    unfolding new_fields by (rule map_cong[OF refl]) (auto simp: g)
  have 3: "p0vec (new_SquareWaveFitTest rnd) =
     map (\<lambda>(il, ip, iw). f32 (of_nat ip / of_nat nbits)) (spec_steps nbits)"
    unfolding new_fields by (rule map_cong[OF refl]) (auto simp: g)
  have 4: "fvec (new_SquareWaveFitTest rnd) =
     map (\<lambda>(il, ip, iw). f32 (of_nat iw / of_nat nbits)) (spec_steps nbits)"
    unfolding new_fields by (rule map_cong[OF refl]) (auto simp: g)
  have 5: "length (bitmodels (new_SquareWaveFitTest rnd)) = (\<Sum>il = 2..nbits div 2 - 1. (il + 1) * (il - 2))"
    by (simp add: new_fields length_spec_steps)
  have 6: "nbits div 2 - 1 = 17" by (simp add: nbits_def)
  have 7: "(\<Sum>il = 2..17. (il + 1) * (il - 2)) = (1600 :: nat)"
    using length_spec_steps[of nbits] length_spec_steps_36 unfolding 6 by simp
  show ?thesis using 1 2 3 4 5 6 7 by blast
qed

theorem constructor_enumeration_witness:
  "length (bitmodels (new_SquareWaveFitTest (sconst (Fin (1 / 2))))) = 1600 \<and>
   take 6 (lvec (new_SquareWaveFitTest (sconst (Fin (1 / 2)))))
     = map (\<lambda>(il, ip, iw). f32 (of_nat il / of_nat nbits))
         [(3 :: nat, 0 :: nat, 1 :: nat), (3, 1, 1), (3, 2, 1), (3, 3, 1), (4, 0, 1), (4, 0, 2)] \<and>
   take 6 (p0vec (new_SquareWaveFitTest (sconst (Fin (1 / 2)))))
     = map (\<lambda>(il, ip, iw). f32 (of_nat ip / of_nat nbits))
         [(3 :: nat, 0 :: nat, 1 :: nat), (3, 1, 1), (3, 2, 1), (3, 3, 1), (4, 0, 1), (4, 0, 2)] \<and>
   take 6 (fvec (new_SquareWaveFitTest (sconst (Fin (1 / 2)))))
     = map (\<lambda>(il, ip, iw). f32 (of_nat iw / of_nat nbits))
         [(3 :: nat, 0 :: nat, 1 :: nat), (3, 1, 1), (3, 2, 1), (3, 3, 1), (4, 0, 1), (4, 0, 2)]"
proof -
  note t = constructor_enumeration[of "sconst (Fin (1 / 2))"]
  have p: "take 6 (spec_steps nbits) = [(3 :: nat, 0 :: nat, 1 :: nat), (3, 1, 1), (3, 2, 1), (3, 3, 1), (4, 0, 1), (4, 0, 2)]"
    by (simp add: spec_steps_def nbits_def upt_conv_Cons)
  have a: "length (bitmodels (new_SquareWaveFitTest (sconst (Fin (1 / 2)))))
      = (\<Sum>il = 2..nbits div 2 - 1. (il + 1) * (il - 2))"
    and b: "nbits div 2 - 1 = 17" and c: "(\<Sum>il = 2..17. (il + 1) * (il - 2)) = (1600 :: nat)"
    using t by blast+
  have 1: "length (bitmodels (new_SquareWaveFitTest (sconst (Fin (1 / 2))))) = 1600"
    using a unfolding b c .
  have 2: "take 6 (lvec (new_SquareWaveFitTest (sconst (Fin (1 / 2)))))
     = map (\<lambda>(il, ip, iw). f32 (of_nat il / of_nat nbits)) (take 6 (spec_steps nbits))"
    using t by (simp only: take_map)
  have 3: "take 6 (p0vec (new_SquareWaveFitTest (sconst (Fin (1 / 2)))))
     = map (\<lambda>(il, ip, iw). f32 (of_nat ip / of_nat nbits)) (take 6 (spec_steps nbits))"
    using t by (simp only: take_map)
  have 4: "take 6 (fvec (new_SquareWaveFitTest (sconst (Fin (1 / 2)))))
     = map (\<lambda>(il, ip, iw). f32 (of_nat iw / of_nat nbits)) (take 6 (spec_steps nbits))"
    using t by (simp only: take_map)
  show ?thesis using 1 2 3 4 unfolding p by blast
qed

subsection \<open>The encoding of one sample\<close>



subsection \<open>A template matches itself\<close>

text \<open>
  Claim C6: for every index \<open>k\<close> of the library that the constructor builds, the
  search with the encoding of the parameters stored at \<open>k\<close> returns the distance 0
  and the smallest index that holds the bit pattern of template \<open>k\<close>; that index is
  \<open>k\<close> itself when no earlier entry has the same pattern.
\<close>

theorem self_match:
  assumes "k < length (bitmodels (new_SquareWaveFitTest rnd))"
  shows "let s = new_SquareWaveFitTest rnd;
             obs = setbits 0 (lvec s ! k) (p0vec s ! k) (fvec s ! k)
         in snd (bestOverlap (bitmodels s) obs) = 0 \<and>
            fst (bestOverlap (bitmodels s) obs)
              = (LEAST j. j < length (bitmodels s) \<and> bitmodels s ! j = bitmodels s ! k) \<and>
            ((\<forall>j<k. bitmodels s ! j \<noteq> bitmodels s ! k) \<longrightarrow>
               fst (bestOverlap (bitmodels s) obs) = k)"
proof -
  define s where "s = new_SquareWaveFitTest rnd"
  define lib where "lib = bitmodels s"
  define obs where "obs = setbits 0 (lvec s ! k) (p0vec s ! k) (fvec s ! k)"
  have k: "k < length lib" using assms by (simp add: lib_def s_def)
  have ob: "lib ! k = obs"
    using models_consistent[of k rnd] assms by (simp add: lib_def obs_def s_def)
  have ne: "lib \<noteq> []" using k by auto
  have len: "length lib \<le> 2 ^ 32" by (simp add: lib_def s_def new_length)
  obtain r b where rb: "bestOverlap lib obs = (r, b)" "r < length lib"
    "b = bset_count (lib ! r XOR obs)" "\<forall>j<length lib. b \<le> bset_count (lib ! j XOR obs)"
    "\<forall>j<r. b < bset_count (lib ! j XOR obs)"
    using bestOverlap_spec[OF ne len, of obs] by blast
  have "b \<le> bset_count (lib ! k XOR obs)" using rb(4) k by blast
  then have b0: "b = 0" by (simp add: ob bset_count_zero)
  have rk: "lib ! r = lib ! k" using rb(3) b0 by (simp add: bset_count_0_iff bset_xor_eq_0 ob)
  have first: "lib ! j \<noteq> lib ! k" if "j < r" for j
  proof
    assume "lib ! j = lib ! k"
    then have "bset_count (lib ! j XOR obs) = 0" by (simp add: ob bset_count_zero)
    then show False using rb(5) that b0 by auto
  qed
  have l: "(LEAST j. j < length lib \<and> lib ! j = lib ! k) = r"
  proof (rule Least_equality)
    show "r < length lib \<and> lib ! r = lib ! k" using rb(2) rk by simp
    fix y assume "y < length lib \<and> lib ! y = lib ! k"
    then show "r \<le> y" using first[of y] by (cases "y < r") auto
  qed
  have own: "r = k" if "\<forall>j<k. lib ! j \<noteq> lib ! k"
  proof -
    have "\<not> r < k" using that rk by blast
    moreover have "\<not> k < r" using first[of k] by blast
    ultimately show ?thesis by simp
  qed
  have "snd (bestOverlap lib obs) = 0 \<and>
        fst (bestOverlap lib obs) = (LEAST j. j < length lib \<and> lib ! j = lib ! k) \<and>
        ((\<forall>j<k. lib ! j \<noteq> lib ! k) \<longrightarrow> fst (bestOverlap lib obs) = k)"
    using rb(1) b0 l own by simp
  then show ?thesis
    unfolding Let_def lib_def obs_def s_def .
qed

theorem self_match_witness:
  "(0::nat) < length (bitmodels (new_SquareWaveFitTest (sconst (Fin (1 / 2))))) \<and>
   bestOverlap (bitmodels (new_SquareWaveFitTest (sconst (Fin (1 / 2)))))
     (setbits 0 (lvec (new_SquareWaveFitTest (sconst (Fin (1 / 2)))) ! 0)
        (p0vec (new_SquareWaveFitTest (sconst (Fin (1 / 2)))) ! 0)
        (fvec (new_SquareWaveFitTest (sconst (Fin (1 / 2)))) ! 0)) = (0, 0)"
proof -
  have h: "(0::nat) < length (bitmodels (new_SquareWaveFitTest (sconst (Fin (1 / 2)))))"
    by (simp add: new_length)
  show ?thesis
    using self_match[OF h] h by (simp add: Let_def prod_eq_iff)
qed

subsection \<open>Which parameters are illegal\<close>

text \<open>
  Claim C7: on finite \<^verbatim>\<open>float\<close>s \<^verbatim>\<open>badParams\<close> rejects a triple exactly when
  \<open>lambda < 2 / nbits\<close> or \<open>lambda > 0.5\<close>, or \<open>phase < 0\<close> or \<open>phase > lambda\<close>,
  or \<open>width < 1 / nbits\<close> or \<open>width > lambda - 1 / nbits\<close>, the inequalities read
  over the rationals although the code evaluates its bounds in \<^verbatim>\<open>double\<close>.  For
  \<^verbatim>\<open>nbits\<close> 36 the minimal triple, the \<^verbatim>\<open>float\<close>s nearest to \<open>2 / 36\<close>, 0 and
  \<open>1 / 36\<close>, is accepted; every \<open>lambda\<close> above 0.5, every \<open>phase\<close> below 0 and the
  \<open>width\<close> 0 are rejected, whatever the other parameters are.
\<close>

theorem badParams_exactly:
  "(is_f32 l \<and> is_f32 p \<and> is_f32 w \<longrightarrow>
      (badParams (f32 (of_nat nbits)) (Fin l) (Fin p) (Fin w) \<longleftrightarrow>
         l < 2 / of_nat nbits \<or> 1 / 2 < l \<or> p < 0 \<or> l < p \<or>
         w < 1 / of_nat nbits \<or> l - 1 / of_nat nbits < w)) \<and>
   \<not> badParams (f32 (of_nat nbits)) (f32 (2 / 36)) (Fin 0) (f32 (1 / 36)) \<and>
   (fgt lambda (Fin (1 / 2)) \<longrightarrow> badParams fn lambda phase width) \<and>
   (flt phase (Fin 0) \<longrightarrow> badParams fn lambda phase width) \<and>
   badParams (f32 (of_nat nbits)) lambda phase (Fin 0)"
proof (intro conjI impI)
  assume "is_f32 l \<and> is_f32 p \<and> is_f32 w"
  then show "badParams (f32 (of_nat nbits)) (Fin l) (Fin p) (Fin w) \<longleftrightarrow>
         l < 2 / of_nat nbits \<or> 1 / 2 < l \<or> p < 0 \<or> l < p \<or>
         w < 1 / of_nat nbits \<or> l - 1 / of_nat nbits < w"
    using badParams_finite[of l p w] by (simp add: f32_36 nbits_def)
next
  show "\<not> badParams (f32 (of_nat nbits)) (f32 (2 / 36)) (Fin 0) (f32 (1 / 36))"
    unfolding f32_nbits by (rule minimal_triple)
next
  assume "fgt lambda (Fin (1 / 2))"
  then show "badParams fn lambda phase width" by (simp add: badParams_def)
next
  assume "flt phase (Fin 0)"
  then show "badParams fn lambda phase width" by (simp add: badParams_def)
next
  show "badParams (f32 (of_nat nbits)) lambda phase (Fin 0)"
    by (simp add: badParams_def f32_nbits f64_36th)
qed

theorem badParams_exactly_witness:
  "is_f32 (1 / 4) \<and> is_f32 (1 / 8) \<and>
   \<not> badParams (f32 (of_nat nbits)) (Fin (1 / 4)) (Fin (1 / 8)) (Fin (1 / 8)) \<and>
   fgt (Fin 1) (Fin (1 / 2)) \<and> badParams (Fin 36) (Fin 1) (Fin 0) (Fin (1 / 8)) \<and>
   flt (Fin (- 1)) (Fin 0) \<and> badParams (Fin 36) (Fin (1 / 4)) (Fin (- 1)) (Fin (1 / 8))"
proof -
  note t = badParams_exactly[of "1 / 4" "1 / 8" "1 / 8" "Fin 1" "Fin 36" "Fin 0" "Fin (1 / 8)"]
  note u = badParams_exactly[of "1 / 4" "1 / 8" "1 / 8" "Fin (1 / 4)" "Fin 36" "Fin (- 1)" "Fin (1 / 8)"]
  have a: "fgt (Fin 1) (Fin (1 / 2))" by (simp add: fgt_def)
  have b: "flt (Fin (- 1)) (Fin 0)" by simp
  have c: "\<not> badParams (f32 (of_nat nbits)) (Fin (1 / 4)) (Fin (1 / 8)) (Fin (1 / 8))"
    using t is_f32_quarter is_f32_eighth by (simp add: nbits_def)
  have d: "badParams (Fin 36) (Fin 1) (Fin 0) (Fin (1 / 8))" using t a by blast
  have e: "badParams (Fin 36) (Fin (1 / 4)) (Fin (- 1)) (Fin (1 / 8))" using u b by blast
  show ?thesis using a b c d e is_f32_quarter is_f32_eighth by blast
qed

subsection \<open>Illegal parameters of a trial run\<close>

text \<open>
  Claim C8: for every parameter triple that \<^verbatim>\<open>badParams\<close> rejects, \<^verbatim>\<open>test\<close> returns
  -1 before it encodes or searches anything: it writes the one line
  \<^verbatim>\<open>Illegal values\<close> and leaves the object as it was, with no draw taken from the
  random engine and no histogram reset or filled; the parameters are not replaced by
  legal ones.
\<close>

theorem test_badParams:
  "badParams (fnbits s) lambda phase width \<Longrightarrow>
   test s lambda phase width eff pur ntrials clock = Inr (- 1, [Illegal_values], s)"
  by (simp add: test_def)

theorem test_badParams_witness:
  "badParams (fnbits (new_SquareWaveFitTest (sconst (Fin (1 / 2))))) (Fin 1) (Fin 0) (Fin (1 / 8)) \<and>
   test (new_SquareWaveFitTest (sconst (Fin (1 / 2)))) (Fin 1) (Fin 0) (Fin (1 / 8)) (Fin 1) (Fin 1)
        3 (\<lambda>i. 0)
     = Inr (- 1, [Illegal_values], new_SquareWaveFitTest (sconst (Fin (1 / 2))))"
proof -
  have h: "badParams (fnbits (new_SquareWaveFitTest (sconst (Fin (1 / 2))))) (Fin 1) (Fin 0) (Fin (1 / 8))"
    by (simp add: badParams_def fgt_def)
  show ?thesis using h test_badParams[OF h] by blast
qed

subsection \<open>The library holds legal parameters only\<close>

text \<open>
  Claim C9: every parameter triple that the constructor stores in \<^verbatim>\<open>_lvec\<close>,
  \<^verbatim>\<open>_p0vec\<close> and \<^verbatim>\<open>_fvec\<close> passes the check of \<^verbatim>\<open>badParams\<close>: every template
  of the library lies in the legal domain.
\<close>

theorem library_valid:
  assumes "k < length (bitmodels (new_SquareWaveFitTest rnd))"
  shows "\<not> badParams (fnbits (new_SquareWaveFitTest rnd))
           (lvec (new_SquareWaveFitTest rnd) ! k)
           (p0vec (new_SquareWaveFitTest rnd) ! k)
           (fvec (new_SquareWaveFitTest rnd) ! k)"
proof -
  have k: "k < length (spec_steps nbits)" using assms by (simp add: new_fields)
  obtain il ip iw where e: "spec_steps nbits ! k = (il, ip, iw)"
    by (cases "spec_steps nbits ! k")
  have m: "(il, ip, iw) \<in> set (spec_steps nbits)" using k e by (metis nth_mem)
  have b: "2 \<le> il" "il \<le> 17" "ip \<le> il" "1 \<le> iw" "iw \<le> il - 2"
    using spec_steps_bounds[OF m] steps_small(4)[OF m] by simp_all
  have g: "model_at (f32 (of_nat nbits)) il (int ip) iw =
    (setbits 0 (f32 (of_nat il / of_nat nbits)) (f32 (of_nat ip / of_nat nbits))
       (f32 (of_nat iw / of_nat nbits)),
     f32 (of_nat il / of_nat nbits), f32 (of_nat ip / of_nat nbits),
     f32 (of_nat iw / of_nat nbits))"
    using steps_small[OF m] by (intro model_at_steps)
  have f: "lvec (new_SquareWaveFitTest rnd) ! k = f32 (of_nat il / of_nat nbits)"
    "p0vec (new_SquareWaveFitTest rnd) ! k = f32 (of_nat ip / of_nat nbits)"
    "fvec (new_SquareWaveFitTest rnd) ! k = f32 (of_nat iw / of_nat nbits)"
    using k by (simp_all add: new_fields e g)
  show ?thesis
    unfolding f new_fields(5) f32_nbits using grid_valid[OF b] by (simp add: nbits_def)
qed

theorem library_valid_witness:
  "(7::nat) < length (bitmodels (new_SquareWaveFitTest (sconst (Fin (1 / 2))))) \<and>
   \<not> badParams (fnbits (new_SquareWaveFitTest (sconst (Fin (1 / 2)))))
           (lvec (new_SquareWaveFitTest (sconst (Fin (1 / 2)))) ! 7)
           (p0vec (new_SquareWaveFitTest (sconst (Fin (1 / 2)))) ! 7)
           (fvec (new_SquareWaveFitTest (sconst (Fin (1 / 2)))) ! 7)"
proof -
  have h: "(7::nat) < length (bitmodels (new_SquareWaveFitTest (sconst (Fin (1 / 2)))))"
    by (simp add: new_length)
  show ?thesis using library_valid[OF h] h by blast
qed

subsection \<open>The noise overwrites its output\<close>

text \<open>
  Claim C10: what \<^verbatim>\<open>setRandom\<close> leaves in \<^verbatim>\<open>rbits\<close> depends on the model bits,
  on \<^verbatim>\<open>eff\<close> and \<^verbatim>\<open>pur\<close> and on the first \<^verbatim>\<open>nbits\<close> draws only, not on what
  \<^verbatim>\<open>rbits\<close> held before: each of the bits 0 to \<^verbatim>\<open>nbits - 1\<close> is written, so two
  calls that agree on the model, on \<^verbatim>\<open>eff\<close> and \<^verbatim>\<open>pur\<close> and on those draws give the
  same observation even when the output vectors start different, as the
  \<^verbatim>\<open>rbits\<close> reused by the trial loop does.  The call takes exactly \<^verbatim>\<open>nbits\<close>
  draws from the engine.
\<close>

theorem setRandom_overwrites:
  "stake nbits rnd = stake nbits rnd' \<Longrightarrow>
   fst (setRandom model rbits eff pur rnd) = fst (setRandom model rbits' eff pur rnd') \<and>
   snd (setRandom model rbits eff pur rnd) = sdrop nbits rnd"
proof
  assume eq: "stake nbits rnd = stake nbits rnd'"
  show "fst (setRandom model rbits eff pur rnd) = fst (setRandom model rbits' eff pur rnd')"
  proof (rule bit_eqI)
    fix i
    have "i < nbits \<Longrightarrow> rnd !! i = rnd' !! i"
      by (metis eq stake_nth)
    then show "bit (fst (setRandom model rbits eff pur rnd)) i
        = bit (fst (setRandom model rbits' eff pur rnd')) i"
      using bset_bit_less[of rbits i] bset_bit_less[of rbits' i]
      by (auto simp: setRandom_def setRandom_loop_bit)
  qed
  show "snd (setRandom model rbits eff pur rnd) = sdrop nbits rnd"
    by (simp add: setRandom_def setRandom_loop_rand)
qed

theorem setRandom_overwrites_witness:
  "stake nbits (sconst (Fin (1 / 2))) = stake nbits (sconst (Fin (1 / 2))) \<and>
   fst (setRandom 5 0 (Fin (9 / 10)) (Fin (9 / 10)) (sconst (Fin (1 / 2))))
     = fst (setRandom 5 (- 1) (Fin (9 / 10)) (Fin (9 / 10)) (sconst (Fin (1 / 2)))) \<and>
   snd (setRandom 5 0 (Fin (9 / 10)) (Fin (9 / 10)) (sconst (Fin (1 / 2))))
     = sdrop nbits (sconst (Fin (1 / 2)))"
  using setRandom_overwrites[OF refl, where rnd = "sconst (Fin (1 / 2))" and model = 5
      and rbits = 0 and eff = "Fin (9 / 10)" and pur = "Fin (9 / 10)" and rbits' = "- 1"]
  by simp

section \<open>Further properties\<close>

subsection \<open>The distance of the search\<close>

text \<open>
  The distance that \<^verbatim>\<open>bestOverlap\<close> minimises, the number of bits set in the exclusive
  or of two bit vectors, is at most \<^verbatim>\<open>nbits\<close>, is 0 from a vector to itself, is
  symmetric, and is 0 between equal vectors only.
\<close>

theorem hamming_metric:
  "bset_count (a XOR b) \<le> nbits \<and> bset_count (a XOR a) = 0 \<and>
   bset_count (a XOR b) = bset_count (b XOR a) \<and>
   (bset_count (a XOR b) = 0 \<longleftrightarrow> a = b)"
  by (simp add: bset_count_le bset_count_zero bset_count_0_iff bset_xor_eq_0 xor.commute)

subsection \<open>A trial run with legal parameters\<close>

text \<open>
  For parameters that \<^verbatim>\<open>badParams\<close> accepts, \<^verbatim>\<open>test\<close> on the object that the
  constructor builds returns 0, whatever the efficiency, the purity, the number of
  trials and the draws are: no index that a search returns lies outside the library.
  The library is left as it was, \<^verbatim>\<open>nbits\<close> draws are taken for the profile that is
  printed and \<^verbatim>\<open>nbits\<close> for each trial, and each trial fills each histogram once.
\<close>

theorem test_legal:
  assumes "\<not> badParams (fnbits (new_SquareWaveFitTest rnd)) lambda phase width"
  shows "\<exists>out s'. test (new_SquareWaveFitTest rnd) lambda phase width eff pur ntrials clock
            = Inr (0, out, s') \<and>
          bitmodels s' = bitmodels (new_SquareWaveFitTest rnd) \<and>
          lvec s' = lvec (new_SquareWaveFitTest rnd) \<and>
          p0vec s' = p0vec (new_SquareWaveFitTest rnd) \<and>
          fvec s' = fvec (new_SquareWaveFitTest rnd) \<and>
          rand s' = sdrop (Suc ntrials * nbits) rnd \<and>
          length (hover s') = ntrials \<and> length (hmod s') = ntrials \<and> length (hdur s') = ntrials"
proof -
  define s where "s = new_SquareWaveFitTest rnd"
  have ne: "bitmodels s \<noteq> []" and len: "length (bitmodels s) \<le> 2 ^ 32"
    and l1: "length (lvec s) = length (bitmodels s)" and l2: "length (p0vec s) = length (bitmodels s)"
    and l3: "length (fvec s) = length (bitmodels s)"
    using new_length[of rnd] by (auto simp: s_def)
  define model where "model = setbits 0 lambda phase width"
  obtain imod bover where b1: "bestOverlap (bitmodels s) model = (imod, bover)"
    by (cases "bestOverlap (bitmodels s) model")
  have i1: "imod < length (bitmodels s)"
    using bestOverlap_spec[OF ne len, of model] b1 by (metis fst_conv)
  obtain rbits rnd1 where sr: "setRandom model 0 eff pur (rand s) = (rbits, rnd1)"
    by (cases "setRandom model 0 eff pur (rand s)")
  have rnd1: "rnd1 = sdrop nbits rnd"
    using sr setRandom_loop_rand[of 0 model 0 eff pur "rand s"]
    by (simp add: setRandom_def s_def new_fields)
  obtain imod' bover' where b2: "bestOverlap (bitmodels s) rbits = (imod', bover')"
    by (cases "bestOverlap (bitmodels s) rbits")
  have i2: "imod' < length (bitmodels s)"
    using bestOverlap_spec[OF ne len, of rbits] b2 by (metis fst_conv)
  let ?s1 = "s\<lparr>rand := rnd1, hdur := [], hover := [], hmod := [], hlambda := [],
                hphase := [], hwidth := []\<rparr>"
  obtain s' where s': "trials 0 ntrials model rbits eff pur clock ?s1 = Inr s'"
    "bitmodels s' = bitmodels ?s1" "lvec s' = lvec ?s1" "p0vec s' = p0vec ?s1" "fvec s' = fvec ?s1"
    "rand s' = sdrop ((ntrials - 0) * nbits) (rand ?s1)"
    "length (hover s') = length (hover ?s1) + (ntrials - 0)"
    "length (hmod s') = length (hmod ?s1) + (ntrials - 0)"
    "length (hdur s') = length (hdur ?s1) + (ntrials - 0)"
    using trials_run[of ?s1 0 ntrials model rbits eff pur clock] ne len l1 l2 l3 by auto
  have r: "rand s' = sdrop (Suc ntrials * nbits) rnd"
    using s'(6) by (simp add: rnd1 sdrop_add add.commute)
  have "test s lambda phase width eff pur ntrials clock
      = Inr (0, [Model_bits model, Template_matches imod bover (bitmodels s ! imod),
                 Random_profile rbits, Random_matches imod' bover' (bitmodels s ! imod')], s')"
    using assms i1 i2 by (simp add: test_def s_def[symmetric] model_def[symmetric] b1 sr b2 s'(1))
  then show ?thesis
    using s' r unfolding s_def by auto
qed

theorem test_legal_witness:
  "\<not> badParams (fnbits (new_SquareWaveFitTest (sconst (Fin (1 / 2))))) (Fin (1 / 4)) (Fin (1 / 8)) (Fin (1 / 8)) \<and>
   (\<exists>out s'. test (new_SquareWaveFitTest (sconst (Fin (1 / 2)))) (Fin (1 / 4)) (Fin (1 / 8)) (Fin (1 / 8))
              (Fin (9 / 10)) (Fin (9 / 10)) 3 (\<lambda>i. 7) = Inr (0, out, s') \<and> length (hover s') = 3)"
proof -
  have h: "\<not> badParams (fnbits (new_SquareWaveFitTest (sconst (Fin (1 / 2))))) (Fin (1 / 4)) (Fin (1 / 8)) (Fin (1 / 8))"
    using badParams_finite[OF is_f32_quarter is_f32_eighth is_f32_eighth]
    by (simp add: new_fields f32_nbits)
  show ?thesis
    using test_legal[OF h, of "Fin (9 / 10)" "Fin (9 / 10)" 3 "\<lambda>i. 7"] h by blast
qed

subsection \<open>Parameters that are not numbers\<close>

text \<open>
  Every comparison with a NaN is false, so \<^verbatim>\<open>badParams\<close> accepts a triple of NaNs,
  and a NaN wavelength with an otherwise legal phase and width; \<^verbatim>\<open>setbits\<close> with a
  NaN wavelength sets no bit.
\<close>

theorem badParams_accepts_NaN:
  "\<not> badParams (f32 (of_nat nbits)) NaN NaN NaN \<and>
   \<not> badParams (f32 (of_nat nbits)) NaN (Fin 0) (f32 (1 / 36)) \<and>
   setbits bits NaN phase width = 0"
proof -
  have 1: "\<not> badParams (f32 (of_nat nbits)) NaN NaN NaN"
    by (simp add: badParams_def fgt_def fsub_def f32_nbits f64_36th f64_18th)
  have 2: "\<not> badParams (f32 (of_nat nbits)) NaN (Fin 0) (f32 (1 / 36))"
    by (simp add: badParams_def fgt_def fsub_def f32_nbits f64_36th f64_18th f32_36th)
  have n: "fmod x NaN = NaN" for x by (cases x) simp_all
  have "\<not> squarewave NaN phase width x" for x
    by (simp add: squarewave_def n fge_def)
  then have "\<not> bit (setbits bits NaN phase width) i" for i
    using bset_bit_less[of bits i] by (auto simp: setbits_def setbits_loop_bit)
  then have 3: "setbits bits NaN phase width = 0" by (simp add: bit_eq_iff)
  show ?thesis using 1 2 3 by blast
qed

subsection \<open>The templates in exact arithmetic\<close>

text \<open>
  Every bit of every template of the library is the bit that the formula gives in exact
  arithmetic at the steps of the template.
\<close>

theorem library_exact:
  assumes "k < length (bitmodels (new_SquareWaveFitTest rnd))" and "i < nbits"
  shows "bset_test (bitmodels (new_SquareWaveFitTest rnd) ! k) i \<longleftrightarrow>
         (case spec_steps nbits ! k of (il, ip, iw) \<Rightarrow>
            exact_bit (of_nat il / of_nat nbits) (of_nat ip / of_nat nbits)
              (of_nat iw / of_nat nbits) nbits i)"
proof -
  have k: "k < length (spec_steps nbits)" using assms(1) by (simp add: new_fields)
  obtain il ip iw where e: "spec_steps nbits ! k = (il, ip, iw)"
    by (cases "spec_steps nbits ! k")
  have m: "(il, ip, iw) \<in> set (spec_steps nbits)" using k e by (metis nth_mem)
  have "bitmodels (new_SquareWaveFitTest rnd) ! k
      = fst (model_at (f32 (of_nat nbits)) il (int ip) iw)"
    using k by (simp add: new_fields e)
  also have "\<dots> = setbits 0 (f32 (of_nat il / of_nat nbits)) (f32 (of_nat ip / of_nat nbits))
       (f32 (of_nat iw / of_nat nbits))"
    by (simp only: model_at_steps[OF steps_small(1,2,3)[OF m]] fst_conv)
  finally show ?thesis
    by (simp only: e prod.case grid_exact[OF m assms(2)])
qed

theorem library_exact_witness:
  "0 < length (bitmodels (new_SquareWaveFitTest (sconst (Fin (1 / 2))))) \<and> (1::nat) < nbits \<and>
   \<not> bset_test (bitmodels (new_SquareWaveFitTest (sconst (Fin (1 / 2)))) ! 0) 1"
proof -
  have l: "0 < length (bitmodels (new_SquareWaveFitTest (sconst (Fin (1 / 2)))))"
    by (simp add: new_length)
  have h: "(1::nat) < nbits" by (simp add: nbits_def)
  have "take 1 (spec_steps nbits) = [(3 :: nat, 0 :: nat, 1 :: nat)]"
    by (simp add: spec_steps_def nbits_def upt_conv_Cons)
  then have p: "spec_steps nbits ! 0 = (3, 0, 1)"
    by (metis nth_take less_numeral_extra(1) nth_Cons_0)
  have t: "trunc_rat (1 / 2) = 0" by (simp add: trunc_rat_def floor_eq_iff)
  have "\<not> exact_bit (of_nat 3 / of_nat nbits) (of_nat 0 / of_nat nbits)
          (of_nat 1 / of_nat nbits) nbits 1"
    by (simp add: exact_bit_def nbits_def t Let_def)
  then show ?thesis
    using library_exact[OF l h] l h unfolding p by simp
qed

text \<open>
  For the wavelength \<open>6 / 36\<close>, the phase 0 and the width \<open>2 / 36\<close> the pattern has
  period 6, with the first two bits of each period set.
\<close>

theorem encoding_scenario:
  assumes "i < nbits"
  shows "bset_test (setbits bits (f32 (6 / 36)) (Fin 0) (f32 (2 / 36))) i \<longleftrightarrow> i mod 6 < 2"
proof -
  have i: "i < 36" using assms by (simp add: nbits_def)
  have z: "f32 (of_nat 0 / 36) = Fin 0" using f32_of_nat[of 0] by simp
  have "bset_test (setbits bits (f32 (of_nat 6 / 36)) (f32 (of_nat 0 / 36)) (f32 (of_nat 2 / 36))) i
      \<longleftrightarrow> squarewave (f32 (of_nat 6 / 36)) (f32 (of_nat 0 / 36)) (f32 (of_nat 2 / 36))
            (fcast f32 (f64 ((of_nat i + 1 / 2) / of_nat nbits)))"
    using assms by (simp only: bset_test_def setbits_def setbits_loop_bit sample_center) simp
  also have "(of_nat nbits :: rat) = 36" by (simp add: nbits_def)
  also have "squarewave (f32 (of_nat 6 / 36)) (f32 (of_nat 0 / 36)) (f32 (of_nat 2 / 36))
            (fcast f32 (f64 ((of_nat i + 1 / 2) / 36)))
      \<longleftrightarrow> (2 * int i + 1 - 2 * int 0) mod (2 * int 6) < 2 * int 2"
    by (rule grid_bit[OF _ _ _ _ _ i]) simp_all
  also have "\<dots> \<longleftrightarrow> i mod 6 < 2" by presburger
  finally show ?thesis unfolding z by simp
qed

theorem encoding_scenario_witness:
  "(7::nat) < nbits \<and> bset_test (setbits 0 (f32 (6 / 36)) (Fin 0) (f32 (2 / 36))) 7 \<and>
   (8::nat) < nbits \<and> \<not> bset_test (setbits 0 (f32 (6 / 36)) (Fin 0) (f32 (2 / 36))) 8"
proof -
  have h: "(7::nat) < nbits" "(8::nat) < nbits" by (simp_all add: nbits_def)
  show ?thesis using encoding_scenario[OF h(1), of 0] encoding_scenario[OF h(2), of 0] h by simp
qed

text \<open>
  Away from the steps of the library the rounding can decide a bit.  The wavelength
  \<open>1 / 4\<close>, the phase 0 and as width the \<^verbatim>\<open>float\<close> nearest to \<open>1 / 24\<close>, which
  lies above \<open>1 / 24\<close>, are legal.  The centre of sample 1 is \<open>1 / 24\<close>, below the
  width, but the code rounds it to that same \<^verbatim>\<open>float\<close>, and \<^verbatim>\<open>val < width\<close> is
  false: the bit is not set.
\<close>

theorem rounding_observable:
  "is_f32 (11184811 / 268435456) \<and>
   \<not> badParams (f32 (of_nat nbits)) (Fin (1 / 4)) (Fin 0) (Fin (11184811 / 268435456)) \<and>
   exact_bit (1 / 4) 0 (11184811 / 268435456) nbits 1 \<and>
   \<not> bset_test (setbits 0 (Fin (1 / 4)) (Fin 0) (Fin (11184811 / 268435456))) 1"
proof -
  let ?w = "11184811 / 268435456 :: rat"
  have w: "is_f32 ?w"
    unfolding is_f32_def f32_def
    by (rule fround_exact[where m = 11184811 and j = "- 28"]) simp_all
  have z: "is_f32 0" unfolding is_f32_def f32_def
    by (rule fround_exact[where m = 0 and j = 0]) simp_all
  have b: "\<not> badParams (f32 (of_nat nbits)) (Fin (1 / 4)) (Fin 0) (Fin ?w)"
    unfolding f32_nbits badParams_finite[OF is_f32_quarter z w] by simp
  have t: "trunc_rat (1 / 6) = 0" by (simp add: trunc_rat_def floor_eq_iff)
  have e: "exact_bit (1 / 4) 0 ?w nbits 1"
    by (simp add: exact_bit_def nbits_def t Let_def)
  have h: "(1::nat) < nbits" by (simp add: nbits_def)
  have "fround 53 1023 (1 / 24) = Fin (of_int 6004799503160661 * 2 powi (- 5 - int 53 + 1))"
    by (rule fround_cert) simp_all
  then have d: "f64 (1 / 24) = Fin (6004799503160661 / 144115188075855872)"
    by (simp add: f64_def)
  have "fround 24 127 (6004799503160661 / 144115188075855872)
      = Fin (of_int 11184811 * 2 powi (- 5 - int 24 + 1))"
    by (rule fround_cert) simp_all
  then have s: "f32 (6004799503160661 / 144115188075855872) = Fin ?w"
    by (simp add: f32_def)
  have ws: "f32 ?w = Fin ?w" using w by (simp add: is_f32_def)
  have x: "((of_nat 1 + 1 / 2) / of_nat nbits :: rat) = 1 / 24" by (simp add: nbits_def)
  have t2: "trunc_rat (11184811 / 67108864) = 0" by (simp add: trunc_rat_def floor_eq_iff)
  have "fcast f32 (f64 ((of_nat 1 + 1 / 2) / of_nat nbits)) = Fin ?w"
    unfolding x d by (simp only: fcast.simps s)
  then have "\<not> squarewave (Fin (1 / 4)) (Fin 0) (Fin ?w)
        (fcast f32 (f64 ((of_nat 1 + 1 / 2) / of_nat nbits)))"
    by (simp add: squarewave_def fsub_def ws t2 fge_def Let_def)
  then have c: "\<not> bset_test (setbits 0 (Fin (1 / 4)) (Fin 0) (Fin ?w)) 1"
    using h by (simp only: bset_test_def setbits_def setbits_loop_bit sample_center) simp
  show ?thesis using w b e c by blast
qed

end
